theory Spec2Isabelle
  imports Complex_Main "HOL-Library.Log_Nat"
begin

section \<open>Python floats: IEEE 754 binary64\<close>

text \<open>
  A Python \<open>float\<close> is an IEEE 754 binary64 number. A finite float is modelled by the
  real number it denotes; the two zeros are identified, which Python's \<open>==\<close> and
  \<open><\<close> cannot tell apart either. \<open>round64\<close> is round-to-nearest, ties-to-even, onto
  the binary64 grid: 53 significant bits, exponents from \<open>-1022\<close> (below which the
  grid is the subnormal one, of spacing \<open>2^-1074\<close>) to \<open>1023\<close>, and anything that rounds
  to \<open>2^1024\<close> or beyond becomes an infinity.
\<close>

datatype pyfloat = Fin real | PInf | NInf | NaN

definition pow2 :: "int \<Rightarrow> real" where
  "pow2 e = (if 0 \<le> e then 2 ^ nat e else 1 / 2 ^ nat (- e))"

definition exponent64 :: "real \<Rightarrow> int" where
  "exponent64 v = max (bitlen \<lfloor>\<bar>v\<bar> * pow2 1074\<rfloor> - 1075) (- 1022)"

definition rne :: "real \<Rightarrow> int" where
  "rne x = (let f = \<lfloor>x\<rfloor>; d = x - of_int f in
     if d < 1 / 2 then f else if 1 / 2 < d then f + 1
     else if even f then f else f + 1)"

definition quantize :: "int \<Rightarrow> real \<Rightarrow> real" where
  "quantize e v = of_int (rne (v / pow2 (e - 52))) * pow2 (e - 52)"

definition clip64 :: "real \<Rightarrow> pyfloat" where
  "clip64 r = (if pow2 1024 \<le> r then PInf else if r \<le> - pow2 1024 then NInf else Fin r)"

definition round64 :: "real \<Rightarrow> pyfloat" where
  "round64 v = clip64 (quantize (exponent64 v) v)"

text \<open>The largest finite float, \<open>sys.float_info.max\<close>.\<close>

definition max_double :: real where
  "max_double = pow2 1024 - pow2 971"

definition is_double :: "real \<Rightarrow> bool" where
  "is_double v = (round64 v = Fin v)"

fun wf_float :: "pyfloat \<Rightarrow> bool" where
  "wf_float (Fin v) = is_double v"
| "wf_float _ = True"

subsection \<open>Arithmetic and comparison of floats\<close>

fun fneg :: "pyfloat \<Rightarrow> pyfloat" where
  "fneg (Fin a) = Fin (- a)"
| "fneg PInf = NInf"
| "fneg NInf = PInf"
| "fneg NaN = NaN"

fun fabs :: "pyfloat \<Rightarrow> pyfloat" where
  "fabs (Fin a) = Fin \<bar>a\<bar>"
| "fabs PInf = PInf"
| "fabs NInf = PInf"
| "fabs NaN = NaN"

fun fadd :: "pyfloat \<Rightarrow> pyfloat \<Rightarrow> pyfloat" where
  "fadd (Fin a) (Fin b) = round64 (a + b)"
| "fadd NaN _ = NaN"
| "fadd _ NaN = NaN"
| "fadd PInf NInf = NaN"
| "fadd NInf PInf = NaN"
| "fadd PInf _ = PInf"
| "fadd _ PInf = PInf"
| "fadd NInf _ = NInf"
| "fadd _ NInf = NInf"

definition fsub :: "pyfloat \<Rightarrow> pyfloat \<Rightarrow> pyfloat" where
  "fsub a b = fadd a (fneg b)"

fun fmul :: "pyfloat \<Rightarrow> pyfloat \<Rightarrow> pyfloat" where
  "fmul (Fin a) (Fin b) = round64 (a * b)"
| "fmul NaN _ = NaN"
| "fmul _ NaN = NaN"
| "fmul PInf (Fin b) = (if b = 0 then NaN else if 0 < b then PInf else NInf)"
| "fmul NInf (Fin b) = (if b = 0 then NaN else if 0 < b then NInf else PInf)"
| "fmul (Fin a) PInf = (if a = 0 then NaN else if 0 < a then PInf else NInf)"
| "fmul (Fin a) NInf = (if a = 0 then NaN else if 0 < a then NInf else PInf)"
| "fmul PInf PInf = PInf"
| "fmul NInf NInf = PInf"
| "fmul PInf NInf = NInf"
| "fmul NInf PInf = NInf"

text \<open>IEEE division by a divisor that is not zero (Python tests for zero first).\<close>

fun fdiv :: "pyfloat \<Rightarrow> pyfloat \<Rightarrow> pyfloat" where
  "fdiv (Fin a) (Fin b) = round64 (a / b)"
| "fdiv NaN _ = NaN"
| "fdiv _ NaN = NaN"
| "fdiv (Fin a) _ = Fin 0"
| "fdiv PInf (Fin b) = (if 0 \<le> b then PInf else NInf)"
| "fdiv NInf (Fin b) = (if 0 \<le> b then NInf else PInf)"
| "fdiv _ _ = NaN"

fun flt :: "pyfloat \<Rightarrow> pyfloat \<Rightarrow> bool" where
  "flt (Fin a) (Fin b) = (a < b)"
| "flt NaN _ = False"
| "flt _ NaN = False"
| "flt NInf NInf = False"
| "flt NInf _ = True"
| "flt PInf _ = False"
| "flt (Fin a) PInf = True"
| "flt (Fin a) NInf = False"

fun fle :: "pyfloat \<Rightarrow> pyfloat \<Rightarrow> bool" where
  "fle (Fin a) (Fin b) = (a \<le> b)"
| "fle NaN _ = False"
| "fle _ NaN = False"
| "fle NInf _ = True"
| "fle _ PInf = True"
| "fle PInf _ = False"
| "fle (Fin a) NInf = False"

section \<open>Python's numeric operations\<close>

text \<open>
  The messages of the source's \<open>ValueError\<close>s are Japanese sentences; each is named here
  by the constraint it describes.
\<close>

datatype message =
    Annual_rate_nonneg
  | Monthly_rate_nonneg
  | Principal_nonneg
  | Years_nonneg
  | Frequency_positive
  | Future_value_nonneg
  | Nominal_rate_nonneg

datatype error = ValueError message | OverflowError | ZeroDivisionError | ComplexResult

definition and_then :: "error + 'a \<Rightarrow> ('a \<Rightarrow> error + 'b) \<Rightarrow> error + 'b" where
  "and_then r f = (case r of Inl e \<Rightarrow> Inl e | Inr v \<Rightarrow> f v)"

text \<open>A finite result is returned, an infinite one is the range error of the C library.\<close>

definition finite_or_overflow :: "pyfloat \<Rightarrow> error + pyfloat" where
  "finite_or_overflow x = (case x of Fin r \<Rightarrow> Inr (Fin r) | _ \<Rightarrow> Inl OverflowError)"

text \<open>\<open>int\<close> to \<open>float\<close>: correctly rounded, \<open>OverflowError\<close> beyond the float range.\<close>

definition float_of_int :: "int \<Rightarrow> error + pyfloat" where
  "float_of_int n = finite_or_overflow (round64 (of_int n))"

text \<open>\<open>a / b\<close> on two ints: the correctly rounded quotient.\<close>

definition int_truediv :: "int \<Rightarrow> int \<Rightarrow> error + pyfloat" where
  "int_truediv a b =
     (if b = 0 then Inl ZeroDivisionError
      else finite_or_overflow (round64 (of_int a / of_int b)))"

text \<open>A value that is an \<open>int\<close> or a \<open>float\<close> (the annotation \<open>Union[int, float]\<close>).\<close>

datatype pynum = PyInt int | PyFloat pyfloat

fun to_float :: "pynum \<Rightarrow> error + pyfloat" where
  "to_float (PyInt n) = float_of_int n"
| "to_float (PyFloat x) = Inr x"

fun num_lt0 :: "pynum \<Rightarrow> bool" where
  "num_lt0 (PyInt n) = (n < 0)"
| "num_lt0 (PyFloat x) = flt x (Fin 0)"

text \<open>\<open>n * y\<close> for an int \<open>n\<close>: exact on ints, a float product otherwise.\<close>

fun int_mul :: "int \<Rightarrow> pynum \<Rightarrow> error + pynum" where
  "int_mul n (PyInt k) = Inr (PyInt (n * k))"
| "int_mul n (PyFloat y) = and_then (float_of_int n) (\<lambda>x. Inr (PyFloat (fmul x y)))"

text \<open>\<open>x / n\<close> and \<open>x * y\<close> for a float \<open>x\<close>.\<close>

definition float_div :: "pyfloat \<Rightarrow> pynum \<Rightarrow> error + pyfloat" where
  "float_div a w = and_then (to_float w)
     (\<lambda>b. if b = Fin 0 then Inl ZeroDivisionError else Inr (fdiv a b))"


subsection \<open>The power operator and the exponential\<close>

text \<open>
  \<open>x ** y\<close> on floats settles the special cases itself, in this order, and hands the
  remaining case (finite operands, a positive base other than 1, a non-zero exponent)
  to the C library's \<open>pow\<close>, whose range error becomes \<open>OverflowError\<close>. The C
  library is taken to round correctly. \<open>math.exp\<close> likewise.
\<close>

definition odd_integer :: "real \<Rightarrow> bool" where
  "odd_integer y = (of_int \<lfloor>y\<rfloor> = y \<and> odd \<lfloor>y\<rfloor>)"

fun fpow :: "pyfloat \<Rightarrow> pyfloat \<Rightarrow> error + pyfloat" where
  "fpow iv iw =
    (if iw = Fin 0 then Inr (Fin 1)
     else if iv = NaN then Inr NaN
     else if iw = NaN then Inr (if iv = Fin 1 then Fin 1 else NaN)
     else if iw = PInf \<or> iw = NInf then
       (if fabs iv = Fin 1 then Inr (Fin 1)
        else if (iw = PInf) = flt (Fin 1) (fabs iv) then Inr PInf
        else Inr (Fin 0))
     else case iw of
       Fin y \<Rightarrow>
        (case iv of
           Fin x \<Rightarrow>
             (if x = 0 then (if y < 0 then Inl ZeroDivisionError else Inr (Fin 0))
              else if x < 0 \<and> of_int \<lfloor>y\<rfloor> \<noteq> y then Inl ComplexResult
              else if \<bar>x\<bar> = 1 then Inr (Fin (if x < 0 \<and> odd_integer y then - 1 else 1))
              else and_then (finite_or_overflow (round64 (\<bar>x\<bar> powr y)))
                     (\<lambda>r. Inr (if x < 0 \<and> odd_integer y then fneg r else r)))
         | _ \<Rightarrow>
             (if 0 < y then Inr (if odd_integer y then iv else PInf) else Inr (Fin 0)))
     | _ \<Rightarrow> Inr NaN)"

definition float_pow :: "pyfloat \<Rightarrow> pynum \<Rightarrow> error + pyfloat" where
  "float_pow v w = and_then (to_float w) (fpow v)"


section \<open>The functions of \<open>compound_interest.py\<close>\<close>

definition annual_to_monthly_rate :: "pyfloat \<Rightarrow> error + pyfloat" where
  "annual_to_monthly_rate annual_rate =
     (if flt annual_rate (Fin 0) then Inl (ValueError Annual_rate_nonneg)
      else and_then (int_truediv 1 12) (\<lambda>twelfth.
           and_then (fpow (fadd (Fin 1) annual_rate) twelfth) (\<lambda>p.
           Inr (fsub p (Fin 1)))))"


definition compound_interest :: "pyfloat \<Rightarrow> pyfloat \<Rightarrow> pynum \<Rightarrow> int \<Rightarrow> error + pyfloat" where
  "compound_interest principal' annual_rate years compounding_frequency =
     (if flt principal' (Fin 0) then Inl (ValueError Principal_nonneg)
      else if flt annual_rate (Fin 0) then Inl (ValueError Annual_rate_nonneg)
      else if num_lt0 years then Inl (ValueError Years_nonneg)
      else if compounding_frequency \<le> 0 then Inl (ValueError Frequency_positive)
      else and_then (float_div annual_rate (PyInt compounding_frequency)) (\<lambda>rate_per_period.
           and_then (int_mul compounding_frequency years) (\<lambda>total_periods.
           and_then (float_pow (fadd (Fin 1) rate_per_period) total_periods) (\<lambda>p.
           Inr (fmul principal' p)))))"

definition future_value :: "pyfloat \<Rightarrow> pyfloat \<Rightarrow> pynum \<Rightarrow> int \<Rightarrow> error + pyfloat" where
  "future_value principal' annual_rate years compounding_frequency =
     compound_interest principal' annual_rate years compounding_frequency"

definition present_value :: "pyfloat \<Rightarrow> pyfloat \<Rightarrow> pynum \<Rightarrow> int \<Rightarrow> error + pyfloat" where
  "present_value future_value_amount annual_rate years compounding_frequency =
     (if flt future_value_amount (Fin 0) then Inl (ValueError Future_value_nonneg)
      else if flt annual_rate (Fin 0) then Inl (ValueError Annual_rate_nonneg)
      else if num_lt0 years then Inl (ValueError Years_nonneg)
      else if compounding_frequency \<le> 0 then Inl (ValueError Frequency_positive)
      else and_then (float_div annual_rate (PyInt compounding_frequency)) (\<lambda>rate_per_period.
           and_then (int_mul compounding_frequency years) (\<lambda>total_periods.
           and_then (float_pow (fadd (Fin 1) rate_per_period) total_periods) (\<lambda>p.
           if p = Fin 0 then Inl ZeroDivisionError
           else Inr (fdiv future_value_amount p)))))"

definition effective_annual_rate :: "pyfloat \<Rightarrow> int \<Rightarrow> error + pyfloat" where
  "effective_annual_rate nominal_annual_rate compounding_frequency =
     (if flt nominal_annual_rate (Fin 0) then Inl (ValueError Nominal_rate_nonneg)
      else if compounding_frequency \<le> 0 then Inl (ValueError Frequency_positive)
      else and_then (float_div nominal_annual_rate (PyInt compounding_frequency)) (\<lambda>q.
           and_then (float_pow (fadd (Fin 1) q) (PyInt compounding_frequency)) (\<lambda>p.
           Inr (fsub p (Fin 1)))))"


section \<open>The same functions in exact arithmetic\<close>

text \<open>
  The functions once more, as the source writes them, with every operation exact: the
  numbers are reals, \<open>x ** y\<close> for a positive \<open>x\<close> is \<open>x powr y\<close>, nothing is rounded
  and nothing overflows. This is the value each formula has before floating point; the
  definitions above are what the program computes.
\<close>

definition annual_to_monthly_rate_exact :: "real \<Rightarrow> error + real" where
  "annual_to_monthly_rate_exact annual_rate =
     (if annual_rate < 0 then Inl (ValueError Annual_rate_nonneg)
      else Inr ((1 + annual_rate) powr (1 / 12) - 1))"

definition monthly_to_annual_rate_exact :: "real \<Rightarrow> error + real" where
  "monthly_to_annual_rate_exact monthly_rate =
     (if monthly_rate < 0 then Inl (ValueError Monthly_rate_nonneg)
      else Inr ((1 + monthly_rate) powr 12 - 1))"

definition compound_interest_exact :: "real \<Rightarrow> real \<Rightarrow> real \<Rightarrow> int \<Rightarrow> error + real" where
  "compound_interest_exact principal' annual_rate years compounding_frequency =
     (if principal' < 0 then Inl (ValueError Principal_nonneg)
      else if annual_rate < 0 then Inl (ValueError Annual_rate_nonneg)
      else if years < 0 then Inl (ValueError Years_nonneg)
      else if compounding_frequency \<le> 0 then Inl (ValueError Frequency_positive)
      else (let rate_per_period = annual_rate / of_int compounding_frequency;
                total_periods = of_int compounding_frequency * years
            in Inr (principal' * (1 + rate_per_period) powr total_periods)))"

definition present_value_exact :: "real \<Rightarrow> real \<Rightarrow> real \<Rightarrow> int \<Rightarrow> error + real" where
  "present_value_exact future_value_amount annual_rate years compounding_frequency =
     (if future_value_amount < 0 then Inl (ValueError Future_value_nonneg)
      else if annual_rate < 0 then Inl (ValueError Annual_rate_nonneg)
      else if years < 0 then Inl (ValueError Years_nonneg)
      else if compounding_frequency \<le> 0 then Inl (ValueError Frequency_positive)
      else (let rate_per_period = annual_rate / of_int compounding_frequency;
                total_periods = of_int compounding_frequency * years
            in Inr (future_value_amount / (1 + rate_per_period) powr total_periods)))"

definition effective_annual_rate_exact :: "real \<Rightarrow> int \<Rightarrow> error + real" where
  "effective_annual_rate_exact nominal_annual_rate compounding_frequency =
     (if nominal_annual_rate < 0 then Inl (ValueError Nominal_rate_nonneg)
      else if compounding_frequency \<le> 0 then Inl (ValueError Frequency_positive)
      else Inr ((1 + nominal_annual_rate / of_int compounding_frequency)
                  powr of_int compounding_frequency - 1))"

section \<open>Outcomes of a call\<close>

text \<open>
  A call raises the input-validation failure (\<open>ValueError\<close>), or returns a float, or
  fails in the arithmetic.
\<close>

definition is_value_error :: "error + pyfloat \<Rightarrow> bool" where
  "is_value_error r = (case r of Inl (ValueError m) \<Rightarrow> True | _ \<Rightarrow> False)"

definition returns_or_overflows :: "error + pyfloat \<Rightarrow> bool" where
  "returns_or_overflows r = (case r of Inr v \<Rightarrow> True | Inl e \<Rightarrow> e = OverflowError)"

text \<open>The call returned a finite float, at most \<open>tol\<close> away from the real \<open>x\<close>.\<close>

definition close_to :: "real \<Rightarrow> error + pyfloat \<Rightarrow> real \<Rightarrow> bool" where
  "close_to tol r x = (case r of Inr (Fin v) \<Rightarrow> (abs (v - x) \<le> tol) | _ \<Rightarrow> False)"

section \<open>Facts about rounding\<close>

subsection \<open>Powers of two and the exponent of a real\<close>

lemma pow2_pos [simp]: "0 < pow2 e"
  by (simp add: pow2_def)

lemma pow2_powr: "pow2 e = 2 powr (of_int e)"
  by (simp add: pow2_def powr_real_of_int divide_inverse)

lemma pow2_add: "pow2 (a + b) = pow2 a * pow2 b"
  by (simp add: pow2_powr powr_add)

lemma pow2_mono: "a \<le> b \<Longrightarrow> pow2 a \<le> pow2 b"
  by (simp add: pow2_powr)

lemma pow2_strict_mono: "a < b \<Longrightarrow> pow2 a < pow2 b"
  by (simp add: pow2_powr)

lemma pow2_nat: "pow2 (int n) = 2 ^ n"
  by (simp add: pow2_def)

lemma pow2_0 [simp]: "pow2 0 = 1"
  by (simp add: pow2_def)

lemma two_power_int_less: "(2::int) ^ a < 2 ^ b \<Longrightarrow> a < b"
  using power_less_imp_less_exp[of "2::int" a b] by simp

lemma exponent64_eqI:
  assumes "- 1022 \<le> e" "pow2 e \<le> \<bar>v\<bar>" "\<bar>v\<bar> < pow2 (e + 1)"
  shows "exponent64 v = e"
proof -
  define m where "m = \<lfloor>\<bar>v\<bar> * pow2 1074\<rfloor>"
  have lo: "pow2 (e + 1074) \<le> \<bar>v\<bar> * pow2 1074"
    using assms(2) by (simp add: pow2_add)
  have "pow2 (e + 1075) = pow2 (e + 1) * pow2 1074"
    using pow2_add[of "e + 1" 1074] by (simp add: add.commute)
  hence hi: "\<bar>v\<bar> * pow2 1074 < pow2 (e + 1075)"
    using assms(3) by simp
  have e1: "0 \<le> e + 1074" using assms(1) by simp
  have lo': "(2::int) ^ nat (e + 1074) \<le> m"
  proof -
    have "real_of_int (2 ^ nat (e + 1074)) \<le> \<bar>v\<bar> * pow2 1074"
      using lo e1 by (simp add: pow2_def[of "e + 1074"])
    thus ?thesis unfolding m_def by (simp add: le_floor_iff)
  qed
  have hi': "m < 2 ^ nat (e + 1075)"
  proof -
    have "\<bar>v\<bar> * pow2 1074 < real_of_int (2 ^ nat (e + 1075))"
      using hi e1 by (simp add: pow2_def[of "e + 1075"])
    thus ?thesis unfolding m_def by (simp add: floor_less_iff)
  qed
  have mpos: "0 < m" using lo' by (smt (verit) zero_less_power)
  have "bitlen m = e + 1075"
  proof -
    from bitlen_bounds[OF mpos] have b1: "2 ^ nat (bitlen m - 1) \<le> m" and b2: "m < 2 ^ nat (bitlen m)" by auto
    have "(2::int) ^ nat (e + 1074) < 2 ^ nat (bitlen m)" using lo' b2 by linarith
    hence "nat (e + 1074) < nat (bitlen m)" by (rule two_power_int_less)
    moreover have "(2::int) ^ nat (bitlen m - 1) < 2 ^ nat (e + 1075)" using hi' b1 by linarith
    hence "nat (bitlen m - 1) < nat (e + 1075)" by (rule two_power_int_less)
    ultimately show ?thesis using e1 by linarith
  qed
  thus ?thesis using assms(1) by (simp add: exponent64_def m_def)
qed

lemma exponent64_small:
  assumes "\<bar>v\<bar> < pow2 (- 1022)"
  shows "exponent64 v = - 1022"
proof -
  define m where "m = \<lfloor>\<bar>v\<bar> * pow2 1074\<rfloor>"
  have "\<bar>v\<bar> * pow2 1074 < pow2 52"
    using assms pow2_add[of "- 1022" 1074] by simp
  hence "\<bar>v\<bar> * pow2 1074 < real_of_int (2 ^ 52)" by (simp add: pow2_def[of 52])
  hence hi: "m < 2 ^ 52" unfolding m_def by (simp add: floor_less_iff)
  have "bitlen m \<le> 52"
  proof (cases "0 < m")
    case True
    from bitlen_bounds[OF True] have "2 ^ nat (bitlen m - 1) \<le> m" by auto
    hence "(2::int) ^ nat (bitlen m - 1) < 2 ^ 52" using hi by linarith
    hence "nat (bitlen m - 1) < 52" by (rule two_power_int_less)
    thus ?thesis by linarith
  next
    case False
    thus ?thesis by (simp add: bitlen_alt_def)
  qed
  thus ?thesis by (simp add: exponent64_def m_def)
qed

subsection \<open>Rounding to the nearest integer, ties to even\<close>

lemma rne_int [simp]: "rne (of_int n) = n"
  by (simp add: rne_def)

lemma rne_err: "\<bar>of_int (rne x) - x\<bar> \<le> 1 / 2"
  unfolding rne_def Let_def by (auto simp: abs_le_iff)

lemma rne_eqI:
  assumes "\<bar>x - of_int n\<bar> < 1 / 2"
  shows "rne x = n"
proof -
  have "\<bar>of_int (rne x) - x\<bar> \<le> 1 / 2" by (rule rne_err)
  hence "\<bar>real_of_int (rne x) - of_int n\<bar> < 1" using assms by linarith
  hence "\<bar>real_of_int (rne x - n)\<bar> < 1" by simp
  hence "\<bar>rne x - n\<bar> < 1" by linarith
  thus ?thesis by linarith
qed

lemma rne_mono: assumes "x \<le> y" shows "rne x \<le> rne y"
proof (rule ccontr)
  assume "\<not> rne x \<le> rne y"
  hence a: "rne y + 1 \<le> rne x" by simp
  have ex: "\<bar>of_int (rne x) - x\<bar> \<le> 1 / 2" and ey: "\<bar>of_int (rne y) - y\<bar> \<le> 1 / 2"
    by (rule rne_err)+
  from a have "real_of_int (rne y) + 1 \<le> of_int (rne x)" by linarith
  with ex ey assms have "x = y" by linarith
  thus False using a by simp
qed

lemma rne_ge_int: "of_int n \<le> x \<Longrightarrow> n \<le> rne x"
  using rne_mono[of "of_int n" x] by simp

lemma rne_le_int: "x \<le> of_int n \<Longrightarrow> rne x \<le> n"
  using rne_mono[of x "of_int n"] by simp

lemma rne_minus: "rne (- x) = - rne x"
proof (cases "of_int \<lfloor>x\<rfloor> = x")
  case True
  then obtain n where "x = of_int n" by metis
  thus ?thesis by (simp del: of_int_minus add: of_int_minus[symmetric])
next
  case False
  hence fl: "\<lfloor>- x\<rfloor> = - \<lfloor>x\<rfloor> - 1" by linarith
  have lt: "of_int \<lfloor>x\<rfloor> < x" using False by linarith
  show ?thesis unfolding rne_def[of "- x"] rne_def[of x] Let_def fl
    using lt by (auto simp: field_simps) 
qed

subsection \<open>Rounding to binary64\<close>

lemma pow2_nonneg [simp]: "0 \<le> pow2 e"
  using pow2_pos[of e] by linarith

lemma pow2_neq0 [simp]: "pow2 e \<noteq> 0"
  using pow2_pos[of e] by linarith

lemma pow2_not_le0 [simp]: "\<not> pow2 e \<le> 0"
  using pow2_pos[of e] by linarith

lemma neg_pow2_less0 [simp]: "\<not> 0 \<le> - pow2 e"
  using pow2_pos[of e] by linarith

lemma rne_0 [simp]: "rne 0 = 0"
  using rne_int[of 0] by simp

lemma exponent64_ge: "- 1022 \<le> exponent64 v"
  by (simp add: exponent64_def)

lemma exponent64_bounds:
  assumes "pow2 (- 1022) \<le> \<bar>v\<bar>"
  shows "pow2 (exponent64 v) \<le> \<bar>v\<bar>" and "\<bar>v\<bar> < pow2 (exponent64 v + 1)"
proof -
  define e where "e = \<lfloor>log 2 \<bar>v\<bar>\<rfloor>"
  have vpos: "0 < \<bar>v\<bar>" using assms pow2_pos[of "- 1022"] by linarith
  have "of_int e \<le> log 2 \<bar>v\<bar>" unfolding e_def by simp
  hence lo: "pow2 e \<le> \<bar>v\<bar>" using vpos by (simp add: pow2_powr le_log_iff)
  have "log 2 \<bar>v\<bar> < of_int (e + 1)" unfolding e_def by linarith
  hence hi: "\<bar>v\<bar> < pow2 (e + 1)" using vpos by (simp add: pow2_powr log_less_iff)
  have "pow2 (- 1022) < pow2 (e + 1)" using assms hi by linarith
  hence "- 1022 < e + 1" using pow2_mono[of "e + 1" "- 1022"] by (cases "- 1022 < e + 1") auto
  hence "exponent64 v = e" using lo hi by (intro exponent64_eqI) auto
  thus "pow2 (exponent64 v) \<le> \<bar>v\<bar>" and "\<bar>v\<bar> < pow2 (exponent64 v + 1)"
    using lo hi by simp_all
qed

lemma round64_quantize: "round64 v = clip64 (quantize (exponent64 v) v)"
  by (simp add: round64_def)

lemma round64_eval:
  assumes "- 1022 \<le> e" "pow2 e \<le> \<bar>v\<bar>" "\<bar>v\<bar> < pow2 (e + 1)"
  shows "round64 v = clip64 (quantize e v)"
  using exponent64_eqI[OF assms] by (simp add: round64_quantize)

lemma round64_eval_small:
  assumes "\<bar>v\<bar> < pow2 (- 1022)"
  shows "round64 v = clip64 (quantize (- 1022) v)"
  using exponent64_small[OF assms] by (simp add: round64_quantize)

lemma quantize_err: "\<bar>quantize e v - v\<bar> \<le> pow2 (e - 53)"
proof -
  let ?q = "pow2 (e - 52)"
  have q: "0 < ?q" by simp
  have "\<bar>of_int (rne (v / ?q)) - v / ?q\<bar> \<le> 1 / 2" by (rule rne_err)
  hence "\<bar>of_int (rne (v / ?q)) - v / ?q\<bar> * ?q \<le> 1 / 2 * ?q"
    using q by (intro mult_right_mono) auto
  moreover have "\<bar>of_int (rne (v / ?q)) - v / ?q\<bar> * ?q = \<bar>quantize e v - v\<bar>"
  proof -
    have "\<bar>of_int (rne (v / ?q)) - v / ?q\<bar> * ?q = \<bar>(of_int (rne (v / ?q)) - v / ?q) * ?q\<bar>"
      using q by (simp add: abs_mult)
    also have "(of_int (rne (v / ?q)) - v / ?q) * ?q = quantize e v - v"
      using q by (simp add: quantize_def left_diff_distrib)
    finally show ?thesis .
  qed
  moreover have "1 / 2 * ?q = pow2 (e - 53)"
    using pow2_add[of "e - 53" 1] by (simp add: pow2_def[of 1])
  ultimately show ?thesis by simp
qed

lemma quantize_ge_grid:
  assumes "of_int n * pow2 (e - 52) \<le> v"
  shows "of_int n * pow2 (e - 52) \<le> quantize e v"
proof -
  have "of_int n \<le> v / pow2 (e - 52)" using assms by (simp add: pos_le_divide_eq)
  hence "n \<le> rne (v / pow2 (e - 52))" by (rule rne_ge_int)
  thus ?thesis by (simp add: quantize_def)
qed

lemma quantize_le_grid:
  assumes "v \<le> of_int n * pow2 (e - 52)"
  shows "quantize e v \<le> of_int n * pow2 (e - 52)"
proof -
  have "v / pow2 (e - 52) \<le> of_int n" using assms by (simp add: pos_divide_le_eq)
  hence "rne (v / pow2 (e - 52)) \<le> n" by (rule rne_le_int)
  thus ?thesis by (simp add: quantize_def)
qed

lemma quantize_grid:
  assumes "e - 52 \<le> k"
  shows "quantize e (of_int n * pow2 k) = of_int n * pow2 k"
proof -
  have k: "pow2 k = pow2 (k - (e - 52)) * pow2 (e - 52)"
    using pow2_add[of "k - (e - 52)" "e - 52"] by simp
  have i: "pow2 (k - (e - 52)) = of_int (2 ^ nat (k - (e - 52)))"
    using assms by (simp add: pow2_def)
  have "of_int n * pow2 k / pow2 (e - 52) = of_int (n * 2 ^ nat (k - (e - 52)))"
    unfolding of_int_mult i[symmetric] by (subst k) simp
  hence "rne (of_int n * pow2 k / pow2 (e - 52)) = n * 2 ^ nat (k - (e - 52))"
    by (simp only: rne_int)
  hence "quantize e (of_int n * pow2 k) = of_int (n * 2 ^ nat (k - (e - 52))) * pow2 (e - 52)"
    by (simp only: quantize_def)
  also have "\<dots> = of_int n * pow2 k" unfolding of_int_mult i[symmetric] using k by simp
  finally show ?thesis .
qed

lemma round64_zero [simp]: "round64 0 = Fin 0"
  using round64_eval_small[of 0] by (simp add: quantize_def clip64_def)

subsection \<open>Representable numbers\<close>

lemma pow2_less_cancel: "pow2 a < pow2 b \<Longrightarrow> a < b"
  using pow2_mono[of b a] by (cases "a < b") auto

lemma pow2_53: "pow2 53 = of_int (2 ^ 53)"
  by (simp add: pow2_def)

lemma clip64_Fin: "\<bar>r\<bar> < pow2 1024 \<Longrightarrow> clip64 r = Fin r"
  by (auto simp: clip64_def)

lemma clip64_Fin_iff: "clip64 r = Fin r' \<longleftrightarrow> r' = r \<and> \<bar>r\<bar> < pow2 1024"
  by (auto simp: clip64_def)

lemma round64_grid:
  assumes n: "\<bar>n\<bar> < 2 ^ 53" and k: "- 1074 \<le> k"
    and b: "\<bar>of_int n * pow2 k\<bar> < pow2 1024"
  shows "round64 (of_int n * pow2 k) = Fin (of_int n * pow2 k)"
proof (cases "\<bar>of_int n * pow2 k\<bar> < pow2 (- 1022)")
  case True
  have "quantize (- 1022) (of_int n * pow2 k) = of_int n * pow2 k"
    using k by (intro quantize_grid) simp
  thus ?thesis using round64_eval_small[OF True] b by (simp add: clip64_Fin)
next
  case False
  let ?v = "of_int n * pow2 k"
  let ?e = "exponent64 ?v"
  from False have "pow2 (- 1022) \<le> \<bar>?v\<bar>" by simp
  from exponent64_bounds[OF this] have lo: "pow2 ?e \<le> \<bar>?v\<bar>" by simp
  have "\<bar>?v\<bar> = of_int \<bar>n\<bar> * pow2 k" by (simp add: abs_mult)
  also have "\<dots> < of_int (2 ^ 53) * pow2 k"
    using n by (intro mult_strict_right_mono) (simp_all del: of_int_power of_int_numeral)
  also have "\<dots> = pow2 (53 + k)" by (simp only: pow2_53[symmetric] pow2_add)
  finally have "pow2 ?e < pow2 (53 + k)" using lo by linarith
  hence "?e < 53 + k" by (rule pow2_less_cancel)
  hence "quantize ?e ?v = ?v" by (intro quantize_grid) simp
  thus ?thesis using b by (simp add: round64_quantize clip64_Fin)
qed

lemma rne_abs_le:
  assumes "\<bar>x\<bar> \<le> of_int m"
  shows "\<bar>rne x\<bar> \<le> m"
proof -
  have "x \<le> of_int m" "of_int (- m) \<le> x" using assms by (simp_all add: abs_le_iff) 
  hence "rne x \<le> m" "- m \<le> rne x" by (auto intro: rne_le_int rne_ge_int)
  thus ?thesis by simp
qed

lemma round64_idem:
  assumes "round64 v = Fin r"
  shows "is_double r"
proof -
  define e where "e = exponent64 v"
  define n where "n = rne (v / pow2 (e - 52))"
  have r: "r = of_int n * pow2 (e - 52)" and rb: "\<bar>r\<bar> < pow2 1024"
    using assms by (auto simp: round64_quantize clip64_Fin_iff quantize_def e_def n_def)
  have e: "- 1022 \<le> e" unfolding e_def by (rule exponent64_ge)
  have vb: "\<bar>v\<bar> < pow2 (e + 1)"
  proof (cases "\<bar>v\<bar> < pow2 (- 1022)")
    case True
    thus ?thesis using pow2_mono[of "- 1022" "e + 1"] e by linarith
  next
    case False
    thus ?thesis using exponent64_bounds(2)[of v] by (simp add: e_def)
  qed
  have "\<bar>v / pow2 (e - 52)\<bar> = \<bar>v\<bar> / pow2 (e - 52)" by simp
  also have "\<dots> \<le> pow2 (e + 1) / pow2 (e - 52)"
    using vb by (intro divide_right_mono) simp_all
  also have "\<dots> = pow2 53" using pow2_add[of 53 "e - 52"] by (simp add: add.commute)
  finally have "\<bar>v / pow2 (e - 52)\<bar> \<le> of_int (2 ^ 53)" by (simp only: pow2_53)
  hence nb: "\<bar>n\<bar> \<le> 2 ^ 53" unfolding n_def by (rule rne_abs_le)
  show ?thesis
  proof (cases "\<bar>n\<bar> < 2 ^ 53")
    case True
    have "round64 (of_int n * pow2 (e - 52)) = Fin (of_int n * pow2 (e - 52))"
      using True e rb by (intro round64_grid) (simp_all add: r)
    thus ?thesis by (simp add: is_double_def r)
  next
    case False
    hence "\<bar>n\<bar> = 2 ^ 53" using nb by simp
    then consider "n = 2 ^ 53" | "n = - (2 ^ 53)" by linarith
    hence "\<exists>s::int. \<bar>s\<bar> < 2 ^ 53 \<and> of_int n = of_int s * pow2 53"
    proof cases
      case 1
      thus ?thesis by (intro exI[of _ 1]) (simp add: pow2_53)
    next
      case 2
      thus ?thesis by (intro exI[of _ "- 1"]) (simp add: pow2_53)
    qed
    then obtain s :: int where s: "\<bar>s\<bar> < 2 ^ 53" and ns: "real_of_int n = of_int s * pow2 53"
      by blast
    have r': "r = of_int s * pow2 (e + 1)"
      unfolding r ns using pow2_add[of 53 "e - 52"] by (simp add: add.commute)
    have "round64 (of_int s * pow2 (e + 1)) = Fin (of_int s * pow2 (e + 1))"
      using s e rb by (intro round64_grid) (simp_all add: r')
    thus ?thesis by (simp add: is_double_def r')
  qed
qed

lemma is_double_int: "\<bar>n\<bar> < 2 ^ 53 \<Longrightarrow> is_double (of_int n)"
  using round64_grid[of n 0] unfolding is_double_def
  by (simp add: pow2_def[of 1024] del: of_int_power)

subsection \<open>Evaluating the operations\<close>

lemma and_then_Inr [simp]: "and_then (Inr v) f = f v"
  by (simp add: and_then_def)

lemma and_then_Inl [simp]: "and_then (Inl e) f = Inl e"
  by (simp add: and_then_def)

lemma finite_or_overflow_Fin [simp]: "finite_or_overflow (Fin r) = Inr (Fin r)"
  by (simp add: finite_or_overflow_def)

lemma round64_one [simp]: "round64 1 = Fin 1"
  using is_double_int[of 1] by (simp add: is_double_def)

lemma float_of_int_1 [simp]: "float_of_int 1 = Inr (Fin 1)"
  by (simp add: float_of_int_def)

subsection \<open>The rounding error\<close>

lemma max_double_grid:
  assumes "e \<le> 1023"
  shows "max_double = of_int ((2 ^ 53 - 1) * 2 ^ nat (1023 - e)) * pow2 (e - 52)"
proof -
  have a: "pow2 1024 = pow2 53 * pow2 971" using pow2_add[of 53 971] by simp
  have b: "pow2 971 = pow2 (1023 - e) * pow2 (e - 52)" using pow2_add[of "1023 - e" "e - 52"] by simp
  have c: "pow2 (1023 - e) = 2 ^ nat (1023 - e)" using assms by (simp add: pow2_def)
  have "max_double = (pow2 53 - 1) * pow2 971" unfolding max_double_def a by (simp add: algebra_simps)
  also have "\<dots> = (pow2 53 - 1) * 2 ^ nat (1023 - e) * pow2 (e - 52)" by (subst b) (simp add: c)
  finally show ?thesis by (simp add: pow2_53)
qed

lemma max_double_less: "max_double < pow2 1024"
  by (simp add: max_double_def)

lemma max_double_ge: "pow2 1023 \<le> max_double"
proof -
  have "pow2 1024 = 2 * pow2 1023" using pow2_add[of 1 1023] by (simp add: pow2_def[of 1])
  moreover have "pow2 971 \<le> pow2 1023" by (rule pow2_mono) simp
  ultimately show ?thesis by (simp add: max_double_def)
qed

lemma round64_err:
  assumes "\<bar>v\<bar> \<le> max_double"
  shows "\<exists>r. round64 v = Fin r \<and> \<bar>r - v\<bar> \<le> pow2 (- 53) * \<bar>v\<bar> + pow2 (- 1075)
           \<and> \<bar>r\<bar> \<le> max_double"
proof -
  define e where "e = exponent64 v"
  define r where "r = quantize e v"
  have e: "- 1022 \<le> e" unfolding e_def by (rule exponent64_ge)
  have err: "\<bar>r - v\<bar> \<le> pow2 (e - 53)" unfolding r_def by (rule quantize_err)
  have p: "pow2 (e - 53) = pow2 (- 53) * pow2 e" using pow2_add[of "- 53" e] by (simp add: add.commute)
  have "e \<le> 1023 \<and> pow2 (e - 53) \<le> pow2 (- 53) * \<bar>v\<bar> + pow2 (- 1075)"
  proof (cases "\<bar>v\<bar> < pow2 (- 1022)")
    case True
    hence "e = - 1022" unfolding e_def by (rule exponent64_small)
    thus ?thesis by simp
  next
    case False
    hence lo: "pow2 e \<le> \<bar>v\<bar>" using exponent64_bounds(1)[of v] by (simp add: e_def)
    hence "pow2 e < pow2 1024" using assms max_double_less by linarith
    hence "e < 1024" by (rule pow2_less_cancel)
    moreover have "pow2 (- 53) * pow2 e \<le> pow2 (- 53) * \<bar>v\<bar>"
      using lo by (intro mult_left_mono) simp_all
    ultimately show ?thesis using p pow2_pos[of "- 1075"] by linarith
  qed
  hence e': "e \<le> 1023" and bound: "\<bar>r - v\<bar> \<le> pow2 (- 53) * \<bar>v\<bar> + pow2 (- 1075)"
    using err by auto
  let ?N = "(2 ^ 53 - 1) * 2 ^ nat (1023 - e) :: int"
  have g: "max_double = of_int ?N * pow2 (e - 52)" by (rule max_double_grid[OF e'])
  have "v \<le> of_int ?N * pow2 (e - 52)" using assms g by linarith
  hence up: "r \<le> max_double" unfolding r_def g by (rule quantize_le_grid)
  have "of_int (- ?N) * pow2 (e - 52) \<le> v" using assms g by simp
  hence "of_int (- ?N) * pow2 (e - 52) \<le> r" unfolding r_def by (rule quantize_ge_grid)
  hence rm: "\<bar>r\<bar> \<le> max_double" using g up by simp
  hence "\<bar>r\<bar> < pow2 1024" using max_double_less by linarith
  hence "round64 v = Fin r" by (simp add: round64_quantize r_def e_def clip64_Fin)
  thus ?thesis using bound rm by blast
qed

lemma round64_ge_pow2:
  assumes "pow2 k \<le> v" "- 1022 \<le> k" "round64 v = Fin r"
  shows "pow2 k \<le> r"
proof -
  define e where "e = exponent64 v"
  have v: "pow2 (- 1022) \<le> \<bar>v\<bar>" using assms(1,2) pow2_mono[of "- 1022" k] by linarith
  have vpos: "0 < v" using assms(1) pow2_pos[of k] by linarith
  have "\<bar>v\<bar> < pow2 (e + 1)" using exponent64_bounds(2)[OF v] by (simp add: e_def)
  hence "pow2 k < pow2 (e + 1)" using assms(1) vpos by linarith
  hence ke: "k \<le> e" using pow2_less_cancel[of k "e + 1"] by simp
  have r: "r = quantize e v" using assms(3) by (simp add: round64_quantize clip64_Fin_iff e_def)
  have lo: "pow2 e \<le> v" using exponent64_bounds(1)[OF v] vpos by (simp add: e_def)
  have pe: "pow2 e = of_int (2 ^ 52) * pow2 (e - 52)"
    using pow2_add[of 52 "e - 52"] by (simp add: pow2_def[of 52])
  have "of_int (2 ^ 52) * pow2 (e - 52) \<le> quantize e v"
    using lo unfolding pe by (rule quantize_ge_grid)
  hence "pow2 e \<le> r" using r pe by simp
  thus ?thesis using pow2_mono[OF ke] by linarith
qed

subsection \<open>Constants\<close>

lemma pow2_1023_le_max: "1 + pow2 1023 \<le> max_double"
proof -
  have "pow2 1024 = 2 * pow2 1023" using pow2_add[of 1 1023] by (simp add: pow2_def[of 1])
  moreover have "pow2 971 \<le> pow2 1022" by (rule pow2_mono) simp
  moreover have "1 \<le> pow2 1022" using pow2_mono[of 0 1022] by simp
  moreover have "pow2 1023 = 2 * pow2 1022" using pow2_add[of 1 1022] by (simp add: pow2_def[of 1])
  ultimately show ?thesis by (simp add: max_double_def)
qed

lemma pow2_consts:
  shows "pow2 (- 51) = 4 * pow2 (- 53)" and "3 * pow2 (- 1075) \<le> pow2 (- 53)" and "pow2 (- 53) \<le> 1"
proof -
  show "pow2 (- 51) = 4 * pow2 (- 53)" using pow2_add[of 2 "- 53"] by (simp add: pow2_def[of 2])
  have "pow2 (- 1075) \<le> pow2 (- 55)" by (rule pow2_mono) simp
  moreover have "pow2 (- 53) = 4 * pow2 (- 55)" using pow2_add[of 2 "- 55"] by (simp add: pow2_def[of 2])
  ultimately show "3 * pow2 (- 1075) \<le> pow2 (- 53)" using pow2_pos[of "- 55"] by linarith
  show "pow2 (- 53) \<le> 1" using pow2_mono[of "- 53" 0] by simp
qed

subsection \<open>Some floats\<close>

lemma round64_tenth:
  "round64 (1 / 10) = Fin (3602879701896397 / 36028797018963968)"
  by (subst round64_eval[of "- 4"]) (simp_all add: pow2_def quantize_def clip64_def rne_def)

lemma is_double_tenth: "is_double (3602879701896397 / 36028797018963968)"
  unfolding is_double_def
  by (subst round64_eval[of "- 4"]) (simp_all add: pow2_def quantize_def clip64_def rne_def)

lemma round64_one_plus_tenth:
  "round64 (1 + 3602879701896397 / 36028797018963968) = Fin (2476979795053773 / 2251799813685248)"
  by (subst round64_eval[of 0]) (simp_all add: pow2_def quantize_def clip64_def rne_def)

lemma is_double_one_plus_tenth: "is_double (2476979795053773 / 2251799813685248)"
  unfolding is_double_def
  by (subst round64_eval[of 0]) (simp_all add: pow2_def quantize_def clip64_def rne_def)

lemma round64_one_plus_tenth_minus_one:
  "round64 (2476979795053773 / 2251799813685248 - 1) = Fin (225179981368525 / 2251799813685248)"
  by (subst round64_eval[of "- 4"]) (simp_all add: pow2_def quantize_def clip64_def rne_def)

lemma is_double_twentieth: "is_double (3602879701896397 / 72057594037927936)"
  unfolding is_double_def
  by (subst round64_eval[of "- 5"]) (simp_all add: pow2_def quantize_def clip64_def rne_def)

subsection \<open>Zero rate, zero years\<close>

lemma fpow_one_base [simp]: "fpow (Fin 1) w = Inr (Fin 1)"
  by (cases w) (simp_all add: odd_integer_def)

lemma fpow_zero_exponent: "fpow v (Fin 0) = Inr (Fin 1)"
  by simp

lemma fmul_one: "wf_float p \<Longrightarrow> fle (Fin 0) p \<Longrightarrow> fmul p (Fin 1) = p"
  by (cases p) (simp_all add: is_double_def)

lemma fle_not_flt: "fle (Fin 0) p \<Longrightarrow> \<not> flt p (Fin 0)"
  by (cases p) simp_all

lemma finite_or_overflow_Inr: "finite_or_overflow x = Inr y \<longleftrightarrow> (\<exists>v. x = Fin v \<and> y = Fin v)"
  by (cases x) (auto simp: finite_or_overflow_def)

lemma not_isl_finite_or_overflow: "\<not> isl (finite_or_overflow x) \<longleftrightarrow> (\<exists>v. x = Fin v)"
  by (cases x) (auto simp: finite_or_overflow_def)

lemma float_of_int_pos:
  assumes "0 < n" "\<not> isl (float_of_int n)"
  shows "\<exists>v. float_of_int n = Inr (Fin v) \<and> 1 \<le> v"
proof -
  from assms(2) obtain v where v: "round64 (of_int n) = Fin v"
    by (auto simp: float_of_int_def not_isl_finite_or_overflow)
  have "pow2 0 \<le> real_of_int n" using assms(1) by simp
  from round64_ge_pow2[OF this _ v] have "1 \<le> v" by simp
  thus ?thesis using v by (simp add: float_of_int_def)
qed

lemma float_of_int_0 [simp]: "float_of_int 0 = Inr (Fin 0)"
  by (simp add: float_of_int_def)

lemma compound_interest_zero_rate_int:
  assumes "wf_float P" "fle (Fin 0) P" "0 < n" "\<not> isl (float_of_int n)"
    and "0 \<le> k" "\<not> isl (float_of_int (n * k))"
  shows "compound_interest P (Fin 0) (PyInt k) n = Inr P"
proof -
  obtain v where v: "float_of_int n = Inr (Fin v)" "1 \<le> v"
    using float_of_int_pos[OF assms(3,4)] by blast
  obtain t where t: "float_of_int (n * k) = Inr t"
    using assms(6) by (cases "float_of_int (n * k)") auto
  show ?thesis
    using assms(1,2,3,5) v t
    by (simp add: compound_interest_def fle_not_flt float_div_def float_pow_def fmul_one fpow_zero_exponent del: fpow.simps)
qed

lemma compound_interest_zero_rate_float:
  assumes "wf_float P" "fle (Fin 0) P" "0 < n" "\<not> isl (float_of_int n)"
    and "fle (Fin 0) y"
  shows "compound_interest P (Fin 0) (PyFloat y) n = Inr P"
proof -
  obtain v where v: "float_of_int n = Inr (Fin v)" "1 \<le> v"
    using float_of_int_pos[OF assms(3,4)] by blast
  show ?thesis
    using assms(1,2,3,5) v
    by (simp add: compound_interest_def fle_not_flt float_div_def float_pow_def fmul_one fpow_zero_exponent del: fpow.simps)
qed

lemma compound_interest_zero_years:
  assumes "wf_float P" "fle (Fin 0) P" "0 < n" "\<not> isl (float_of_int n)"
    and "fle (Fin 0) rate"
  shows "compound_interest P rate (PyInt 0) n = Inr P"
    and "compound_interest P rate (PyFloat (Fin 0)) n = Inr P"
proof -
  obtain v where v: "float_of_int n = Inr (Fin v)" "1 \<le> v"
    using float_of_int_pos[OF assms(3,4)] by blast
  show "compound_interest P rate (PyInt 0) n = Inr P"
    using assms(1,2,3,5) v
    by (simp add: compound_interest_def fle_not_flt float_div_def float_pow_def fmul_one fpow_zero_exponent del: fpow.simps)
  have "fmul (Fin v) (Fin 0) = Fin 0" by simp
  thus "compound_interest P rate (PyFloat (Fin 0)) n = Inr P"
    using assms(1,2,3,5) v
    by (simp add: compound_interest_def fle_not_flt float_div_def float_pow_def fmul_one fpow_zero_exponent del: fpow.simps)
qed

subsection \<open>Overflow and small integers\<close>

lemma round64_overflow:
  assumes "pow2 1024 \<le> v"
  shows "round64 v = PInf"
proof -
  define e where "e = exponent64 v"
  have v: "pow2 (- 1022) \<le> \<bar>v\<bar>" using assms pow2_mono[of "- 1022" 1024] by linarith
  have vpos: "0 < v" using assms pow2_pos[of 1024] by linarith
  have "\<bar>v\<bar> < pow2 (e + 1)" using exponent64_bounds(2)[OF v] by (simp add: e_def)
  hence "pow2 1024 < pow2 (e + 1)" using assms vpos by linarith
  hence ke: "1024 \<le> e" using pow2_less_cancel[of 1024 "e + 1"] by simp
  have lo: "pow2 e \<le> v" using exponent64_bounds(1)[OF v] vpos by (simp add: e_def)
  have pe: "pow2 e = of_int (2 ^ 52) * pow2 (e - 52)"
    using pow2_add[of 52 "e - 52"] by (simp add: pow2_def[of 52])
  have "of_int (2 ^ 52) * pow2 (e - 52) \<le> quantize e v"
    using lo unfolding pe by (rule quantize_ge_grid)
  hence "pow2 1024 \<le> quantize e v" using pe pow2_mono[OF ke] by linarith
  thus ?thesis by (simp add: round64_quantize e_def clip64_def)
qed

lemma float_of_int_overflow: "float_of_int (2 ^ 1024) = Inl OverflowError"
proof -
  have "real_of_int (2 ^ 1024) = pow2 1024" by (simp add: pow2_def)
  hence "round64 (real_of_int (2 ^ 1024)) = PInf" by (intro round64_overflow) simp
  thus ?thesis by (simp add: float_of_int_def finite_or_overflow_def)
qed

lemma is_double_1000: "is_double 1000"
  using is_double_int[of 1000] by simp

lemma is_double_million: "is_double 1000000"
  using is_double_int[of 1000000] by simp

lemma float_of_int_small: "\<bar>n\<bar> < 2 ^ 53 \<Longrightarrow> float_of_int n = Inr (Fin (of_int n))"
  using is_double_int[of n] by (simp add: float_of_int_def is_double_def)

subsection \<open>Signs of results\<close>

lemma quantize_nonneg: "0 \<le> v \<Longrightarrow> 0 \<le> quantize e v"
  using quantize_ge_grid[of 0 e v] by simp

lemma round64_nonneg: "0 \<le> v \<Longrightarrow> \<not> flt (round64 v) (Fin 0)"
  using quantize_nonneg[of v "exponent64 v"] by (simp add: round64_quantize clip64_def)

lemma round64_cases_nonneg:
  assumes "0 \<le> v"
  obtains r where "round64 v = Fin r" "0 \<le> r" | "round64 v = PInf"
proof (cases "pow2 1024 \<le> quantize (exponent64 v) v")
  case True
  hence "round64 v = PInf" by (simp add: round64_quantize clip64_def)
  thus ?thesis by (rule that(2))
next
  case False
  have q: "0 \<le> quantize (exponent64 v) v" by (rule quantize_nonneg[OF assms])
  hence "\<not> quantize (exponent64 v) v \<le> - pow2 1024" using pow2_pos[of 1024] by linarith
  hence "round64 v = Fin (quantize (exponent64 v) v)"
    using False by (simp add: round64_quantize clip64_def)
  thus ?thesis using q by (rule that(1))
qed

lemma round64_ge_one: "1 \<le> v \<Longrightarrow> \<not> flt (round64 v) (Fin 1)"
proof -
  assume v: "1 \<le> v"
  hence "0 \<le> v" by simp
  thus ?thesis
  proof (cases rule: round64_cases_nonneg)
    case (1 r)
    have "pow2 0 \<le> v" using v by simp
    from round64_ge_pow2[OF this _ 1(1)] show ?thesis using 1(1) by simp
  next
    case 2
    thus ?thesis by simp
  qed
qed

lemma fdiv_nonneg:
  assumes "\<not> flt a (Fin 0)" "0 < v"
  shows "\<not> flt (fdiv a (Fin v)) (Fin 0)"
  using assms by (cases a) (simp_all add: round64_nonneg)

lemma fadd_one_nonneg:
  assumes "\<not> flt q (Fin 0)"
  shows "\<not> flt (fadd (Fin 1) q) (Fin 1)"
  using assms by (cases q) (simp_all add: round64_ge_one)

lemma fmul_nonneg:
  assumes "\<not> flt y (Fin 0)" "0 < v"
  shows "\<not> flt (fmul (Fin v) y) (Fin 0)"
  using assms by (cases y) (simp_all add: round64_nonneg)

lemma finite_or_overflow_cases:
  obtains r where "x = Fin r" "finite_or_overflow x = Inr (Fin r)"
  | "finite_or_overflow x = Inl OverflowError"
  by (cases x) (auto simp: finite_or_overflow_def)

lemma fpow_ge_one:
  assumes b: "\<not> flt b (Fin 1)" and t: "\<not> flt t (Fin 0)"
  shows "(\<exists>p. fpow b t = Inr p \<and> \<not> flt p (Fin 1)) \<or> fpow b t = Inl OverflowError"
proof (cases t)
  case (Fin y)
  hence y: "0 \<le> y" using t by simp
  show ?thesis
  proof (cases b)
    case (Fin x)
    hence x: "1 \<le> x" using b by simp
    show ?thesis
    proof (cases "y = 0 \<or> x = 1")
      case True
      thus ?thesis using \<open>b = Fin x\<close> \<open>t = Fin y\<close> x by auto
    next
      case False
      hence "1 \<le> x powr y" using x y by (simp add: ge_one_powr_ge_zero)
      hence g: "\<not> flt (round64 (x powr y)) (Fin 1)" by (rule round64_ge_one)
      show ?thesis
      proof (cases "round64 (x powr y)" rule: finite_or_overflow_cases)
        case (1 r)
        thus ?thesis using False g \<open>b = Fin x\<close> \<open>t = Fin y\<close> x by auto
      next
        case 2
        thus ?thesis using False \<open>b = Fin x\<close> \<open>t = Fin y\<close> x by auto
      qed
    qed
  next
    case PInf
    thus ?thesis using \<open>t = Fin y\<close> y by auto
  next
    case NInf
    thus ?thesis using b by simp
  next
    case NaN
    thus ?thesis using \<open>t = Fin y\<close> by auto
  qed
next
  case PInf
  thus ?thesis using b by (cases b) auto
next
  case NInf
  thus ?thesis using t by simp
next
  case NaN
  thus ?thesis by (cases b) auto
qed

subsection \<open>Outcomes of the operations\<close>


lemma returns_Inr [simp]: "returns_or_overflows (Inr v)"
  by (simp add: returns_or_overflows_def)

lemma float_of_int_outcome:
  assumes "0 \<le> k"
  shows "(\<exists>t. float_of_int k = Inr t \<and> \<not> flt t (Fin 0)) \<or> float_of_int k = Inl OverflowError"
proof (cases "round64 (of_int k)" rule: finite_or_overflow_cases)
  case (1 r)
  moreover have "\<not> flt (round64 (of_int k)) (Fin 0)" using assms by (intro round64_nonneg) simp
  ultimately show ?thesis by (simp add: float_of_int_def)
next
  case 2
  thus ?thesis by (simp add: float_of_int_def)
qed

lemma float_of_int_pos_outcome:
  assumes "0 < n"
  shows "(\<exists>v. float_of_int n = Inr (Fin v) \<and> 1 \<le> v) \<or> float_of_int n = Inl OverflowError"
proof (cases "isl (float_of_int n)")
  case True
  thus ?thesis
    by (cases "round64 (of_int n)" rule: finite_or_overflow_cases) (auto simp: float_of_int_def)
next
  case False
  thus ?thesis using float_of_int_pos[OF assms] by blast
qed

lemma to_float_outcome:
  assumes "\<not> num_lt0 w"
  shows "(\<exists>t. to_float w = Inr t \<and> \<not> flt t (Fin 0)) \<or> to_float w = Inl OverflowError"
proof (cases w)
  case (PyInt k)
  thus ?thesis using assms float_of_int_outcome[of k] by simp
next
  case (PyFloat y)
  thus ?thesis using assms by simp
qed

lemma float_div_outcome:
  assumes "\<not> flt a (Fin 0)" "0 < n"
  shows "(\<exists>q. float_div a (PyInt n) = Inr q \<and> \<not> flt q (Fin 0))
         \<or> float_div a (PyInt n) = Inl OverflowError"
  using float_of_int_pos_outcome[OF assms(2)]
proof
  assume "\<exists>v. float_of_int n = Inr (Fin v) \<and> 1 \<le> v"
  then obtain v where v: "float_of_int n = Inr (Fin v)" "1 \<le> v" by blast
  hence "\<not> flt (fdiv a (Fin v)) (Fin 0)" using assms(1) by (intro fdiv_nonneg) simp_all
  thus ?thesis using v by (simp add: float_div_def)
next
  assume "float_of_int n = Inl OverflowError"
  thus ?thesis by (simp add: float_div_def)
qed

lemma int_mul_outcome:
  assumes "0 < n" "\<not> num_lt0 y"
  shows "(\<exists>t. int_mul n y = Inr t \<and> \<not> num_lt0 t) \<or> int_mul n y = Inl OverflowError"
proof (cases y)
  case (PyInt k)
  thus ?thesis using assms mult_nonneg_nonneg[of n k] by (simp add: not_less)
next
  case (PyFloat x)
  from float_of_int_pos_outcome[OF assms(1)] show ?thesis
  proof
    assume "\<exists>v. float_of_int n = Inr (Fin v) \<and> 1 \<le> v"
    then obtain v where v: "float_of_int n = Inr (Fin v)" "1 \<le> v" by blast
    hence "\<not> flt (fmul (Fin v) x) (Fin 0)" using assms(2) PyFloat by (intro fmul_nonneg) simp_all
    thus ?thesis using v PyFloat by simp
  next
    assume "float_of_int n = Inl OverflowError"
    thus ?thesis using PyFloat by simp
  qed
qed

lemma float_pow_outcome:
  assumes "\<not> flt b (Fin 1)" "\<not> num_lt0 w"
  shows "(\<exists>p. float_pow b w = Inr p \<and> \<not> flt p (Fin 1)) \<or> float_pow b w = Inl OverflowError"
  using to_float_outcome[OF assms(2)]
proof
  assume "\<exists>t. to_float w = Inr t \<and> \<not> flt t (Fin 0)"
  then obtain t where t: "to_float w = Inr t" "\<not> flt t (Fin 0)" by blast
  thus ?thesis using fpow_ge_one[OF assms(1) t(2)] by (simp add: float_pow_def del: fpow.simps)
next
  assume "to_float w = Inl OverflowError"
  thus ?thesis by (simp add: float_pow_def)
qed


subsection \<open>Validation and outcome of each function\<close>

lemma is_value_error_simps [simp]:
  "is_value_error (Inl (ValueError m))"
  "\<not> is_value_error (Inr v)"
  "\<not> is_value_error (Inl OverflowError)"
  by (simp_all add: is_value_error_def)











subsection \<open>An overflowing power\<close>

lemma round64_two [simp]: "round64 2 = Fin 2"
  using is_double_int[of 2] by (simp add: is_double_def)


subsection \<open>Some exact powers\<close>

lemma fpow_two_one: "fpow (Fin 2) (Fin 1) = Inr (Fin 2)"
  by simp

lemma round64_2000: "round64 2000 = Fin 2000"
  using is_double_int[of 2000] by (simp add: is_double_def)

subsection \<open>Finite results\<close>

lemma round64_finite_le_max:
  assumes "round64 v = Fin r"
  shows "\<bar>r\<bar> \<le> max_double"
proof -
  define e where "e = exponent64 v"
  have r: "r = quantize e v" and rb: "\<bar>r\<bar> < pow2 1024"
    using assms by (auto simp: round64_quantize clip64_Fin_iff e_def)
  show ?thesis
  proof (cases "\<bar>v\<bar> \<le> max_double")
    case True
    from round64_err[OF True] assms show ?thesis by auto
  next
    case False
    hence big: "max_double < \<bar>v\<bar>" by simp
    hence v: "pow2 (- 1022) \<le> \<bar>v\<bar>"
      using max_double_ge pow2_mono[of "- 1022" 1023] by linarith
    have lo: "pow2 e \<le> \<bar>v\<bar>" and hi: "\<bar>v\<bar> < pow2 (e + 1)"
      using exponent64_bounds[OF v] by (simp_all add: e_def)
    have "pow2 1023 < pow2 (e + 1)" using big max_double_ge hi by linarith
    hence e1: "1023 \<le> e" using pow2_less_cancel[of 1023 "e + 1"] by simp
    have pe: "pow2 e = of_int (2 ^ 52) * pow2 (e - 52)"
      using pow2_add[of 52 "e - 52"] by (simp add: pow2_def[of 52])
    have e2: "e \<le> 1023"
    proof (rule ccontr)
      assume "\<not> e \<le> 1023"
      hence p: "pow2 1024 \<le> pow2 e" by (intro pow2_mono) simp
      have "pow2 e \<le> \<bar>r\<bar>"
      proof (cases "0 \<le> v")
        case True
        hence "of_int (2 ^ 52) * pow2 (e - 52) \<le> v" using lo pe by simp
        from quantize_ge_grid[OF this] show ?thesis using r pe by simp
      next
        case False
        hence "v \<le> of_int (- (2 ^ 52)) * pow2 (e - 52)" using lo pe by simp
        from quantize_le_grid[OF this] show ?thesis using r pe by simp
      qed
      thus False using p rb by linarith
    qed
    hence e: "e = 1023" using e1 by simp
    have g: "max_double = of_int (2 ^ 53 - 1) * pow2 971"
      using max_double_grid[of 1023] by simp
    have g1: "pow2 1024 = of_int (2 ^ 53) * pow2 971"
      using pow2_add[of 53 971] by (simp add: pow2_53)
    obtain k :: int where k: "r = of_int k * pow2 971"
      using r e by (auto simp: quantize_def)
    have "\<bar>real_of_int k\<bar> * pow2 971 < of_int (2 ^ 53) * pow2 971"
      using rb unfolding k g1 by (simp add: abs_mult)
    hence "\<bar>real_of_int k\<bar> < of_int (2 ^ 53)" by (simp add: mult_less_cancel_right)
    hence "\<bar>k\<bar> < 2 ^ 53" by linarith
    hence "\<bar>k\<bar> \<le> 2 ^ 53 - 1" by simp
    hence "\<bar>real_of_int k\<bar> \<le> of_int (2 ^ 53 - 1)" by linarith
    hence "\<bar>real_of_int k\<bar> * pow2 971 \<le> of_int (2 ^ 53 - 1) * pow2 971"
      by (intro mult_right_mono) simp_all
    thus ?thesis unfolding k g by (simp add: abs_mult)
  qed
qed

lemma round64_twelfth:
  "round64 (1 / 12) = Fin (6004799503160661 / 72057594037927936)"
  by (subst round64_eval[of "- 4"]) (simp_all add: pow2_def quantize_def clip64_def rne_def)

lemma int_truediv_1_12:
  "int_truediv 1 12 = Inr (Fin (6004799503160661 / 72057594037927936))"
  using round64_twelfth by (simp add: int_truediv_def)

subsection \<open>The twelfth root\<close>

lemma fpow_twelfth_returns:
  assumes b: "\<not> flt b (Fin 1)" and w: "wf_float b"
  shows "\<exists>p. fpow b (Fin (6004799503160661 / 72057594037927936)) = Inr p \<and> \<not> flt p (Fin 1)"
proof -
  let ?c = "6004799503160661 / 72057594037927936 :: real"
  have t: "\<not> flt (Fin ?c) (Fin 0)" by simp
  show ?thesis
  proof (cases b)
    case (Fin x)
    hence x: "1 \<le> x" and d: "round64 x = Fin x" using b w by (simp_all add: is_double_def)
    have xm: "x \<le> max_double" using round64_finite_le_max[OF d] by simp
    have "x powr ?c \<le> x powr 1" using x by (intro powr_mono) simp_all
    hence "\<bar>x powr ?c\<bar> \<le> max_double" using xm x by simp
    from round64_err[OF this] obtain r where r: "round64 (x powr ?c) = Fin r" by blast
    from fpow_ge_one[OF b t] show ?thesis
    proof
      assume "fpow b (Fin ?c) = Inl OverflowError"
      thus ?thesis using Fin r x by (simp split: if_splits)
    qed
  next
    case PInf
    thus ?thesis by (simp add: odd_integer_def)
  next
    case NInf
    thus ?thesis using b by simp
  next
    case NaN
    thus ?thesis by simp
  qed
qed

lemma round64_wf: "wf_float (round64 v)"
  by (cases "round64 v") (simp_all add: round64_idem)

lemma fadd_wf: "wf_float a \<Longrightarrow> wf_float b \<Longrightarrow> wf_float (fadd a b)"
  by (cases a; cases b) (simp_all add: round64_wf)

subsection \<open>The twelfth root in exact arithmetic\<close>

lemma twelfth_power_gt:
  assumes "0 < (x::real)"
  shows "1 + 12 * x < (1 + x) ^ 12"
proof -
  have "1 + 10 * x \<le> (1 + x) ^ 10" using Bernoulli_inequality[of x 10] assms by simp
  moreover have "0 < (1 + x)\<^sup>2" using assms by simp
  ultimately have "(1 + x)\<^sup>2 * (1 + 10 * x) \<le> (1 + x)\<^sup>2 * (1 + x) ^ 10"
    by (intro mult_left_mono) simp_all
  also have "\<dots> = (1 + x) ^ (2 + 10)" by (simp only: power_add)
  also have "\<dots> = (1 + x) ^ 12" by simp
  finally have "(1 + x)\<^sup>2 * (1 + 10 * x) \<le> (1 + x) ^ 12" .
  moreover have "1 + 12 * x < (1 + x)\<^sup>2 * (1 + 10 * x)"
  proof -
    have "(1 + x)\<^sup>2 * (1 + 10 * x) = 1 + 12 * x + 21 * x\<^sup>2 + 10 * x ^ 3"
      by (simp add: power2_eq_square power3_eq_cube algebra_simps)
    moreover have "0 < 21 * x\<^sup>2 + 10 * x ^ 3" using assms by (simp add: add_pos_pos)
    ultimately show ?thesis by linarith
  qed
  ultimately show ?thesis by linarith
qed

lemma twelfth_root_bounds:
  assumes "0 < (a::real)"
  shows "0 < (1 + a) powr (1 / 12) - 1" and "(1 + a) powr (1 / 12) - 1 < a / 12"
proof -
  have "1 powr (1 / 12) < (1 + a) powr (1 / 12)"
    using assms by (intro powr_less_mono2) simp_all
  thus "0 < (1 + a) powr (1 / 12) - 1" by simp
  have "1 + 12 * (a / 12) < (1 + a / 12) ^ 12" using assms by (intro twelfth_power_gt) simp
  hence "(1 + a) powr (1 / 12) < ((1 + a / 12) ^ 12) powr (1 / 12)"
    using assms by (intro powr_less_mono2) simp_all
  also have "\<dots> = 1 + a / 12"
  proof -
    have "0 < 1 + a / 12" using assms by simp
    hence "(1 + a / 12) ^ 12 = (1 + a / 12) powr (of_nat 12)" by (rule powr_realpow[symmetric])
    hence "((1 + a / 12) ^ 12) powr (1 / 12) = (1 + a / 12) powr (of_nat 12 * (1 / 12))"
      by (simp only: powr_powr)
    also have "\<dots> = 1 + a / 12" using \<open>0 < 1 + a / 12\<close> by simp
    finally show ?thesis .
  qed
  finally show "(1 + a) powr (1 / 12) - 1 < a / 12" by simp
qed

subsection \<open>The monthly rate is never negative\<close>

lemma clip64_not_NaN [simp]: "clip64 r \<noteq> NaN"
  by (simp add: clip64_def)

lemma round64_not_NaN [simp]: "round64 v \<noteq> NaN"
  by (simp add: round64_quantize)

lemma fpow_not_NaN:
  assumes "fpow b (Fin c) = Inr p" "b \<noteq> NaN"
  shows "p \<noteq> NaN"
proof (cases b)
  case (Fin x)
  show ?thesis
  proof (cases "round64 (\<bar>x\<bar> powr c)" rule: finite_or_overflow_cases)
    case (1 r)
    thus ?thesis using assms Fin by (auto split: if_splits)
  next
    case 2
    thus ?thesis using assms Fin by (auto split: if_splits)
  qed
next
  case PInf
  thus ?thesis using assms by (auto split: if_splits)
next
  case NInf
  thus ?thesis using assms by (auto split: if_splits)
next
  case NaN
  thus ?thesis using assms by simp
qed

lemma annual_to_monthly_rate_nonneg:
  assumes w: "wf_float a" and a: "flt (Fin 0) a"
  shows "\<exists>v. annual_to_monthly_rate a = Inr v \<and> fle (Fin 0) v"
proof -
  let ?c = "6004799503160661 / 72057594037927936 :: real"
  have n0: "\<not> flt a (Fin 0)" using a by (cases a) simp_all
  have b: "\<not> flt (fadd (Fin 1) a) (Fin 1)" using n0 by (rule fadd_one_nonneg)
  have nn: "fadd (Fin 1) a \<noteq> NaN" using a by (cases a) simp_all
  have "wf_float (Fin 1)" using is_double_int[of 1] by simp
  hence wb: "wf_float (fadd (Fin 1) a)" using w by (intro fadd_wf) simp_all
  from fpow_twelfth_returns[OF b wb] obtain p
    where p: "fpow (fadd (Fin 1) a) (Fin ?c) = Inr p" and p1: "\<not> flt p (Fin 1)" by blast
  have pn: "p \<noteq> NaN" using fpow_not_NaN[OF p nn] .
  have r: "annual_to_monthly_rate a = Inr (fsub p (Fin 1))"
    using n0 p by (simp add: annual_to_monthly_rate_def int_truediv_1_12 del: fpow.simps)
  have "fle (Fin 0) (fsub p (Fin 1))"
  proof (cases p)
    case (Fin x)
    hence "0 \<le> x - 1" using p1 by simp
    thus ?thesis using Fin by (cases rule: round64_cases_nonneg) (simp_all add: fsub_def)
  qed (use p1 pn in \<open>simp_all add: fsub_def\<close>)
  thus ?thesis using r by blast
qed

lemma tiny_absorbed: "round64 (1 + 1 / 2 ^ 60) = Fin 1"
  by (subst round64_eval[of 0]) (simp_all add: pow2_def quantize_def clip64_def rne_def)

lemma is_double_tiny: "is_double (1 / 2 ^ 60)"
  unfolding is_double_def
  by (subst round64_eval[of "- 60"]) (simp_all add: pow2_def quantize_def clip64_def rne_def)

lemma is_double_hundredth: "is_double (5764607523034235 / 576460752303423488)"
  unfolding is_double_def
  by (subst round64_eval[of "- 7"]) (simp_all add: pow2_def quantize_def clip64_def rne_def)

subsection \<open>Compounding more often, in exact arithmetic\<close>

lemma Bernoulli_strict:
  assumes "- 1 < (x::real)" "x \<noteq> 0" "2 \<le> n"
  shows "1 + of_nat n * x < (1 + x) ^ n"
  using assms(3)
proof (induction n rule: dec_induct)
  case base
  have "0 < x\<^sup>2" using assms(2) by simp
  thus ?case by (simp add: power2_eq_square algebra_simps)
next
  case (step k)
  have "(1 + of_nat k * x) * (1 + x) < (1 + x) ^ k * (1 + x)"
    using step.IH assms(1) by (intro mult_strict_right_mono) simp_all
  moreover have "(1 + of_nat k * x) * (1 + x) = 1 + of_nat (Suc k) * x + of_nat k * x\<^sup>2"
    by (simp add: power2_eq_square algebra_simps)
  moreover have "0 \<le> of_nat k * x\<^sup>2" by simp
  ultimately have "1 + of_nat (Suc k) * x < (1 + x) ^ k * (1 + x)" by linarith
  thus ?case by (simp add: mult.commute)
qed

lemma step_algebra:
  fixes N r :: real
  assumes "0 < N" "0 < r"
  defines "x \<equiv> - r / ((N + 1) * (N + r))"
  shows "1 + r / (N + 1) = (1 + r / N) * (1 + x)"
    and "1 + (N + 1) * x = 1 / (1 + r / N)"
    and "- 1 < x" and "x \<noteq> 0"
proof -
  have p: "0 < N + 1" "0 < N + r" "0 < (N + 1) * (N + r)" using assms(1,2) by simp_all
  have a: "1 + r / N = (N + r) / N" using assms(1) by (simp add: field_simps)
  have x: "1 + x = N * (N + r + 1) / ((N + 1) * (N + r))"
  proof -
    have "1 + x = ((N + 1) * (N + r) - r) / ((N + 1) * (N + r))"
      unfolding x_def using p by (simp add: diff_divide_distrib)
    also have "(N + 1) * (N + r) - r = N * (N + r + 1)" by (simp add: algebra_simps)
    finally show ?thesis .
  qed
  have "(1 + r / N) * (1 + x) = ((N + r) / N) * (N * (N + r + 1) / ((N + 1) * (N + r)))"
    by (simp only: a x)
  also have "\<dots> = (N + r + 1) / (N + 1)" using p assms(1) by simp
  also have "\<dots> = 1 + r / (N + 1)" using p by (simp add: field_simps)
  finally show "1 + r / (N + 1) = (1 + r / N) * (1 + x)" by simp
  have "(N + 1) * x = - r / (N + r)" unfolding x_def using p by simp
  hence "1 + (N + 1) * x = (N + r - r) / (N + r)"
    using p by (simp add: field_simps)
  also have "\<dots> = 1 / (1 + r / N)" unfolding a using assms(1) p by simp
  finally show "1 + (N + 1) * x = 1 / (1 + r / N)" .
  have "r < (N + 1) * (N + r)"
  proof -
    have "(N + 1) * (N + r) = r + N * (N + r + 1)" by (simp add: algebra_simps)
    moreover have "0 < N * (N + r + 1)" using assms by simp
    ultimately show ?thesis by linarith
  qed
  hence "r / ((N + 1) * (N + r)) < 1" using p by simp
  thus "- 1 < x" unfolding x_def by simp
  show "x \<noteq> 0" unfolding x_def using assms(2) p by simp
qed

lemma compounding_step:
  assumes "0 < (r::real)" "1 \<le> n"
  shows "(1 + r / of_nat n) ^ n < (1 + r / of_nat (Suc n)) ^ Suc n"
proof -
  define N where "N = (of_nat n :: real)"
  define a where "a = 1 + r / N"
  define x where "x = - r / ((N + 1) * (N + r))"
  have n: "0 < N" unfolding N_def using assms(2) by simp
  have S: "of_nat (Suc n) = N + 1" unfolding N_def by simp
  have a: "0 < a" unfolding a_def using assms(1) n by (simp add: add_pos_pos)
  note alg = step_algebra[OF n assms(1), folded x_def a_def]
  have "1 + of_nat (Suc n) * x < (1 + x) ^ Suc n"
    using assms(2) by (intro Bernoulli_strict alg) simp
  moreover have "1 + of_nat (Suc n) * x = 1 / a" unfolding S by (rule alg(2))
  ultimately have "1 / a < (1 + x) ^ Suc n" by (simp only:)
  hence "a ^ Suc n * (1 / a) < a ^ Suc n * (1 + x) ^ Suc n"
    using a by (intro mult_strict_left_mono) simp_all
  moreover have "a ^ Suc n * (1 / a) = a ^ n" using a by simp
  moreover have "a ^ Suc n * (1 + x) ^ Suc n = (1 + r / (N + 1)) ^ Suc n"
    unfolding alg(1) by (simp only: power_mult_distrib)
  ultimately have "a ^ n < (1 + r / (N + 1)) ^ Suc n" by simp
  thus ?thesis unfolding a_def S N_def .
qed

lemma compounding_strict_mono:
  assumes "0 < (r::real)" "1 \<le> n" "n < m"
  shows "(1 + r / of_nat n) ^ n < (1 + r / of_nat m) ^ m"
proof -
  from assms(3) have "Suc n \<le> m" by simp
  thus ?thesis
  proof (induction m rule: dec_induct)
    case base
    show ?case by (rule compounding_step[OF assms(1,2)])
  next
    case (step k)
    have "1 \<le> k" using step.hyps(1) by simp
    from compounding_step[OF assms(1) this] step.IH show ?case by linarith
  qed
qed

lemma effective_rate_exact_value:
  assumes "0 \<le> r" "0 < n"
  shows "effective_annual_rate_exact r n = Inr ((1 + r / of_int n) ^ nat n - 1)"
proof -
  have p: "0 < 1 + r / of_int n" using assms by (simp add: add_pos_nonneg)
  have "(1 + r / of_int n) powr of_int n = (1 + r / of_int n) ^ nat n"
    using assms(2) by (simp add: powr_int[OF p])
  thus ?thesis using assms by (simp add: effective_annual_rate_exact_def)
qed

lemma effective_rate_exact_strict_mono:
  assumes "0 < r" "0 < n" "n < m"
  shows "\<exists>x y. effective_annual_rate_exact r n = Inr x
             \<and> effective_annual_rate_exact r m = Inr y \<and> x < y"
proof -
  have "1 \<le> nat n" "nat n < nat m" using assms by simp_all
  from compounding_strict_mono[OF assms(1) this]
  have "(1 + r / of_int n) ^ nat n < (1 + r / of_int m) ^ nat m" using assms by simp
  thus ?thesis using assms by (simp add: effective_rate_exact_value)
qed

subsection \<open>Daily compounding against the exponential\<close>

lemma ln_one_plus_lower:
  assumes "0 \<le> (x::real)"
  shows "x - x\<^sup>2 / 2 \<le> ln (1 + x)"
proof -
  define f where "f = (\<lambda>t::real. ln (1 + t) - t + t\<^sup>2 / 2)"
  have "f 0 \<le> f x"
  proof (rule DERIV_nonneg_imp_nondecreasing[OF assms])
    fix t :: real assume t: "0 \<le> t" "t \<le> x"
    have "(f has_real_derivative (1 / (1 + t) - 1 + t)) (at t)"
      unfolding f_def using t by (auto intro!: derivative_eq_intros simp: field_simps)
    moreover have "0 \<le> 1 / (1 + t) - 1 + t"
    proof -
      have "1 / (1 + t) - 1 + t = t\<^sup>2 / (1 + t)"
        using t by (simp add: field_simps power2_eq_square)
      thus ?thesis using t by simp
    qed
    ultimately show "\<exists>y. (f has_real_derivative y) (at t) \<and> 0 \<le> y" by blast
  qed
  thus ?thesis by (simp add: f_def)
qed

lemma daily_compounding_gap:
  assumes "0 < (r::real)" "r \<le> 1 / 2"
  shows "(1 + r / 365) ^ 365 \<le> exp r" and "exp r - (1 + r / 365) ^ 365 \<le> 1 / 1000"
proof -
  define x where "x = r / 365"
  have x: "0 \<le> x" "365 * x = r" using assms by (simp_all add: x_def)
  have "(1 + x) ^ 365 \<le> exp x ^ 365" by (intro power_mono) (use x in simp_all)
  also have "exp x ^ 365 = exp (of_nat 365 * x)" by (rule exp_of_nat_mult[symmetric])
  finally show up: "(1 + r / 365) ^ 365 \<le> exp r" using x by (simp add: x_def)
  have "x - x\<^sup>2 / 2 \<le> ln (1 + x)" by (rule ln_one_plus_lower[OF x(1)])
  hence "of_nat 365 * (x - x\<^sup>2 / 2) \<le> of_nat 365 * ln (1 + x)" by (intro mult_left_mono) simp_all
  hence "exp (of_nat 365 * (x - x\<^sup>2 / 2)) \<le> exp (of_nat 365 * ln (1 + x))" by simp
  also have "\<dots> = (1 + x) ^ 365"
    using x(1) by (simp only: exp_of_nat_mult) (simp add: add_pos_nonneg)
  finally have lo: "exp (of_nat 365 * (x - x\<^sup>2 / 2)) \<le> (1 + x) ^ 365" .
  have e: "of_nat 365 * (x - x\<^sup>2 / 2) = r - r\<^sup>2 / 730"
    unfolding x_def by (simp add: power2_eq_square field_simps)
  have "exp r * (1 - r\<^sup>2 / 730) \<le> exp r * exp (- (r\<^sup>2 / 730))"
    by (intro mult_left_mono) (use exp_ge_add_one_self[of "- (r\<^sup>2 / 730)"] in simp_all)
  also have "\<dots> = exp (r + - (r\<^sup>2 / 730))" by (rule exp_add[symmetric])
  also have "\<dots> = exp (r - r\<^sup>2 / 730)" by simp
  finally have "exp r * (1 - r\<^sup>2 / 730) \<le> (1 + x) ^ 365" using lo e by simp
  hence g: "exp r - (1 + x) ^ 365 \<le> exp r * (r\<^sup>2 / 730)" by (simp add: algebra_simps)
  have "exp r \<le> 1 + r + r\<^sup>2" using assms by (intro exp_bound) simp_all
  moreover have "r\<^sup>2 \<le> (1 / 2)\<^sup>2" using assms by (intro power_mono) simp_all
  ultimately have er: "exp r \<le> 7 / 4" using assms by (simp add: power2_eq_square)
  have "exp r * (r\<^sup>2 / 730) \<le> 7 / 4 * ((1 / 2)\<^sup>2 / 730)"
    using er \<open>r\<^sup>2 \<le> (1 / 2)\<^sup>2\<close> by (intro mult_mono) simp_all
  also have "\<dots> \<le> 1 / 1000" by (simp add: power2_eq_square)
  finally show "exp r - (1 + r / 365) ^ 365 \<le> 1 / 1000" using g by (simp add: x_def)
qed



lemma close_to_Inr_Fin [simp]: "close_to tol (Inr (Fin v)) x \<longleftrightarrow> \<bar>v - x\<bar> \<le> tol"
  by (simp add: close_to_def)






subsection \<open>The error of a round trip\<close>

lemma round64_err_fin:
  assumes "round64 v = Fin r"
  shows "\<bar>r - v\<bar> \<le> pow2 (- 53) * \<bar>v\<bar> + pow2 (- 1075)"
proof -
  define e where "e = exponent64 v"
  have r: "r = quantize e v" using assms by (simp add: round64_quantize clip64_Fin_iff e_def)
  have err: "\<bar>r - v\<bar> \<le> pow2 (e - 53)" unfolding r by (rule quantize_err)
  have p: "pow2 (e - 53) = pow2 (- 53) * pow2 e" using pow2_add[of "- 53" e] by (simp add: add.commute)
  have "pow2 (e - 53) \<le> pow2 (- 53) * \<bar>v\<bar> + pow2 (- 1075)"
  proof (cases "\<bar>v\<bar> < pow2 (- 1022)")
    case True
    hence "e = - 1022" unfolding e_def by (rule exponent64_small)
    thus ?thesis by simp
  next
    case False
    hence lo: "pow2 e \<le> \<bar>v\<bar>" using exponent64_bounds(1)[of v] by (simp add: e_def)
    have "pow2 (- 53) * pow2 e \<le> pow2 (- 53) * \<bar>v\<bar>"
      using lo by (intro mult_left_mono) simp_all
    thus ?thesis using p pow2_pos[of "- 1075"] by linarith
  qed
  thus ?thesis using err by linarith
qed

lemma round_trip_error:
  assumes x: "0 \<le> x" and p: "1 \<le> p"
    and fv: "round64 (x * p) = Fin fv"
  shows "\<exists>b. round64 (fv / p) = Fin b \<and> \<bar>b - x\<bar> \<le> pow2 (- 51) * x + pow2 (- 1073)"
proof -
  define a where "a = pow2 (- 53)"
  define c where "c = pow2 (- 1075)"
  have a: "0 < a" "a \<le> 1" "0 < c" "pow2 (- 51) = 4 * a" "pow2 (- 1073) = 4 * c"
    using pow2_consts pow2_add[of 2 "- 1075"] by (simp_all add: a_def c_def pow2_def[of 2])
  have fe: "\<bar>fv - x * p\<bar> \<le> a * (x * p) + c"
    using round64_err_fin[OF fv] x p by (simp add: a_def c_def abs_mult)
  have "0 \<le> x * p" using x p by simp
  hence "\<not> flt (round64 (x * p)) (Fin 0)" by (rule round64_nonneg)
  hence f0: "0 \<le> fv" using fv by simp
  have fm: "fv \<le> max_double" using round64_finite_le_max[OF fv] by simp
  have q0: "0 \<le> fv / p" using f0 p by simp
  have "fv / p \<le> fv" using f0 p by (simp add: divide_le_eq mult_le_cancel_left1)
  hence "\<bar>fv / p\<bar> \<le> max_double" using q0 fm by simp
  from round64_err[OF this] obtain b where b: "round64 (fv / p) = Fin b"
    and be0: "\<bar>b - fv / p\<bar> \<le> pow2 (- 53) * \<bar>fv / p\<bar> + pow2 (- 1075)" by blast
  have be: "\<bar>b - fv / p\<bar> \<le> a * (fv / p) + c"
    using be0 abs_of_nonneg[OF q0] by (simp only: a_def c_def)
  have d: "\<bar>fv / p - x\<bar> \<le> a * x + c"
  proof -
    have "\<bar>fv / p - x\<bar> = \<bar>fv - x * p\<bar> / p" using p by (simp add: field_simps abs_divide)
    also have "\<dots> \<le> (a * (x * p) + c) / p" using fe p by (intro divide_right_mono) simp_all
    also have "\<dots> = a * x + c / p" using p by (simp add: field_simps)
    also have "\<dots> \<le> a * x + c" using p a(3) by (simp add: divide_le_eq mult_le_cancel_left1)
    finally show ?thesis .
  qed
  have "fv / p \<le> x + (a * x + c)" using d by linarith
  hence "a * (fv / p) \<le> a * (x + (a * x + c))" using a(1) by (intro mult_left_mono) simp_all
  also have "\<dots> = a * x + a * a * x + a * c" by (simp add: algebra_simps)
  also have "\<dots> \<le> a * x + a * x + c"
  proof -
    have "a * a * x \<le> a * x" using a(1,2) x by (intro mult_right_mono) (simp_all add: mult_le_cancel_left1)
    moreover have "a * c \<le> c" using a(2,3) by (simp add: mult_le_cancel_right1)
    ultimately show ?thesis by linarith
  qed
  finally have "a * (fv / p) \<le> a * x + a * x + c" .
  moreover have "0 \<le> a * x" using a(1) x by simp
  ultimately have "\<bar>b - x\<bar> \<le> 4 * a * x + 4 * c" using be d a(3) by linarith
  thus ?thesis using b a(4,5) by auto
qed

subsection \<open>Present value of a future value\<close>

lemma compound_interest_returns_finite:
  assumes v: "\<not> flt r (Fin 0)" "\<not> num_lt0 y" "0 < n" and x: "0 \<le> x"
    and c: "compound_interest (Fin x) r y n = Inr (Fin fv)"
  obtains q t p where "float_div r (PyInt n) = Inr q" "int_mul n y = Inr t"
    "float_pow (fadd (Fin 1) q) t = Inr (Fin p)" "1 \<le> p" "round64 (x * p) = Fin fv"
proof -
  have c': "and_then (float_div r (PyInt n)) (\<lambda>q.
           and_then (int_mul n y) (\<lambda>t.
           and_then (float_pow (fadd (Fin 1) q) t) (\<lambda>p. Inr (fmul (Fin x) p)))) = Inr (Fin fv)"
    using c v x by (simp add: compound_interest_def)
  from float_div_outcome[OF v(1,3)] c' obtain q
    where q: "float_div r (PyInt n) = Inr q" "\<not> flt q (Fin 0)" by auto
  from int_mul_outcome[OF v(3,2)] c' q obtain t
    where t: "int_mul n y = Inr t" "\<not> num_lt0 t" by auto
  from float_pow_outcome[OF fadd_one_nonneg[OF q(2)] t(2)] c' q t obtain p
    where p: "float_pow (fadd (Fin 1) q) t = Inr p" "\<not> flt p (Fin 1)" by auto
  have m: "fmul (Fin x) p = Fin fv" using c' q t p by simp
  then obtain pv where pv: "p = Fin pv" by (cases p) (auto split: if_splits)
  hence "1 \<le> pv" "round64 (x * pv) = Fin fv" using p(2) m by simp_all
  thus ?thesis using that[OF q(1) t(1) p(1)[unfolded pv]] by blast
qed

lemma present_value_round_trip:
  assumes v: "\<not> flt r (Fin 0)" "\<not> num_lt0 y" "0 < n" and x: "0 \<le> x"
    and c: "compound_interest (Fin x) r y n = Inr (Fin fv)"
  shows "\<exists>b. present_value (Fin fv) r y n = Inr (Fin b)
             \<and> \<bar>b - x\<bar> \<le> pow2 (- 51) * x + pow2 (- 1073)"
proof -
  from compound_interest_returns_finite[OF v x c] obtain q t p
    where q: "float_div r (PyInt n) = Inr q" and t: "int_mul n y = Inr t"
      and p: "float_pow (fadd (Fin 1) q) t = Inr (Fin p)" and p1: "1 \<le> p"
      and fv: "round64 (x * p) = Fin fv" by blast
  have "0 \<le> x * p" using x p1 by simp
  hence "\<not> flt (round64 (x * p)) (Fin 0)" by (rule round64_nonneg)
  hence f0: "\<not> flt (Fin fv) (Fin 0)" using fv by simp
  have "present_value (Fin fv) r y n = Inr (round64 (fv / p))"
    using v f0 q t p p1 by (simp add: present_value_def)
  thus ?thesis using round_trip_error[OF x p1 fv] by auto
qed

lemma billion_tolerance:
  assumes "0 \<le> x" "x \<le> 1000000000"
  shows "pow2 (- 51) * x + pow2 (- 1073) \<le> 1 / 1000000"
proof -
  have a: "pow2 (- 51) \<le> 1 / 2000000000000000" by (simp add: pow2_def)
  have "pow2 (- 1073) \<le> pow2 (- 51)" by (rule pow2_mono) simp
  hence b: "pow2 (- 1073) \<le> 1 / 2000000000000000" using a by linarith
  have "pow2 (- 51) * x \<le> 1 / 2000000000000000 * 1000000000"
    using assms a by (intro mult_mono) simp_all
  thus ?thesis using b by simp
qed

subsection \<open>A hundred billion, and a million\<close>

lemma round64_three_halves: "round64 (3 / 2) = Fin (3 / 2)"
  by (subst round64_eval[of 0]) (simp_all add: pow2_def quantize_def clip64_def rne_def)

lemma round64_half: "round64 (1 / 2) = Fin (1 / 2)"
  by (subst round64_eval[of "- 1"]) (simp_all add: pow2_def quantize_def clip64_def rne_def)

lemma fpow_three_halves_one: "fpow (Fin (3 / 2)) (Fin 1) = Inr (Fin (3 / 2))"
  using round64_three_halves by simp

lemma is_double_hundred_billion: "is_double (3276800000003277 / 32768)"
  unfolding is_double_def
  by (subst round64_eval[of 36]) (simp_all add: pow2_def quantize_def clip64_def rne_def)

lemma hundred_billion_grown:
  "round64 (3276800000003277 / 32768 * (3 / 2)) = Fin (1228800000001229 / 8192)"
  by (subst round64_eval[of 37]) (simp_all add: pow2_def quantize_def clip64_def rne_def)

lemma hundred_billion_discounted:
  "round64 (1228800000001229 / 8192 / (3 / 2)) = Fin (6553600000006555 / 65536)"
  by (subst round64_eval[of 36]) (simp_all add: pow2_def quantize_def clip64_def rne_def)

lemma compound_interest_million:
  "compound_interest (Fin 1000000) (Fin (1 / 2)) (PyInt 2) 1 = Inr (Fin 2250000)"
proof -
  have sq: "((3 / 2)\<^sup>2 :: real) = 9 / 4" by (simp add: power2_eq_square)
  have "round64 (9 / 4) = Fin (9 / 4)"
    by (subst round64_eval[of 1]) (simp_all add: pow2_def quantize_def clip64_def rne_def)
  hence "round64 ((3 / 2)\<^sup>2) = Fin (9 / 4)" by (simp only: sq)
  hence p: "fpow (Fin (3 / 2)) (Fin 2) = Inr (Fin (9 / 4))" by simp
  have m: "round64 2250000 = Fin 2250000" using is_double_int[of 2250000] by (simp add: is_double_def)
  show ?thesis
    using round64_three_halves round64_half p m
    by (simp add: compound_interest_def float_div_def float_pow_def float_of_int_small
        del: fpow.simps)
qed

subsection \<open>The error of the twelfth root\<close>

lemma twelfth_root_error:
  fixes a s p res h g c :: real
  assumes a: "0 \<le> a" and h: "0 < h" "h \<le> 1 / 1000" and g: "0 \<le> g"
    and s: "\<bar>s - (1 + a)\<bar> \<le> h * (1 + a)" "1 \<le> s"
    and c: "c \<le> 1 / 12" "s powr (1 / 12 - c) \<le> 1 + g"
    and p: "\<bar>p - s powr c\<bar> \<le> h * s powr c"
    and r: "\<bar>res - (p - 1)\<bar> \<le> h * p"
  shows "\<bar>res - ((1 + a) powr (1 / 12) - 1)\<bar> \<le> (g + 5 * h) * (1 + a) powr (1 / 12)"
proof -
  define R where "R = (1 + a) powr (1 / 12)"
  have a1: "0 < 1 + a" using a by simp
  have R0: "0 < R" unfolding R_def using a1 by simp
  have s0: "0 < s" using s(2) by simp
  have sc0: "0 < s powr c" using s0 by simp
  have "s powr c \<le> s powr (1 / 12)" using s(2) c(1) by (intro powr_mono) simp_all
  also have "\<dots> \<le> ((1 + a) * (1 + h)) powr (1 / 12)"
  proof (rule powr_mono2)
    show "s \<le> (1 + a) * (1 + h)" using s(1) by (simp add: algebra_simps abs_le_iff)
    show "0 \<le> s" using s0 by simp
    show "(0::real) \<le> 1 / 12" by simp
  qed
  also have "\<dots> = R * (1 + h) powr (1 / 12)"
    unfolding R_def using a1 h by (simp add: powr_mult)
  also have "\<dots> \<le> R * (1 + h) powr 1"
    using R0 h by (intro mult_left_mono powr_mono) simp_all
  finally have up: "s powr c \<le> R * (1 + h)" using h by simp
  have "R * (1 - h) \<le> R * (1 - h) powr (1 / 12)"
  proof (rule mult_left_mono)
    have "(1 - h) powr 1 \<le> (1 - h) powr (1 / 12)"
      using h by (intro powr_mono') simp_all
    thus "1 - h \<le> (1 - h) powr (1 / 12)" using h by simp
    show "0 \<le> R" using R0 by simp
  qed
  also have "\<dots> = ((1 + a) * (1 - h)) powr (1 / 12)"
    unfolding R_def using a1 h by (simp add: powr_mult)
  also have "\<dots> \<le> s powr (1 / 12)"
  proof (rule powr_mono2)
    show "(1 + a) * (1 - h) \<le> s" using s(1) by (simp add: algebra_simps abs_le_iff)
    show "0 \<le> (1 + a) * (1 - h)" using a1 h by simp
    show "(0::real) \<le> 1 / 12" by simp
  qed
  also have "\<dots> = s powr c * s powr (1 / 12 - c)"
    by (simp add: powr_add[symmetric])
  also have "\<dots> \<le> s powr c * (1 + g)" using c(2) sc0 by (intro mult_left_mono) simp_all
  finally have lo: "R * (1 - h) \<le> s powr c * (1 + g)" .
  have hh: "h * h \<le> h" using h by (simp add: mult_le_cancel_left2)
  have p_up: "p \<le> R * (1 + 3 * h)"
  proof -
    have "p \<le> s powr c * (1 + h)" using p by (simp add: algebra_simps abs_le_iff)
    also have "\<dots> \<le> R * (1 + h) * (1 + h)" using up h by (intro mult_right_mono) simp_all
    also have "\<dots> = R * (1 + 2 * h + h * h)" by (simp add: algebra_simps)
    also have "\<dots> \<le> R * (1 + 3 * h)" using hh R0 by (intro mult_left_mono) simp_all
    finally show ?thesis .
  qed
  have p_lo: "R * (1 - 2 * h - g) \<le> p"
  proof -
    have "R * (1 - 2 * h - g) * (1 + g) = R * (1 - 2 * h - 2 * h * g - g * g)"
      by (simp add: algebra_simps)
    also have "\<dots> \<le> R * ((1 - h) * (1 - h))"
      using R0 h g by (intro mult_left_mono) (simp_all add: algebra_simps)
    also have "\<dots> = R * (1 - h) * (1 - h)" by simp
    also have "\<dots> \<le> s powr c * (1 + g) * (1 - h)"
      using lo h by (intro mult_right_mono) simp_all
    also have "\<dots> = s powr c * (1 - h) * (1 + g)" by simp
    also have "\<dots> \<le> p * (1 + g)"
    proof (rule mult_right_mono)
      show "s powr c * (1 - h) \<le> p" using p by (simp add: algebra_simps abs_le_iff)
      show "0 \<le> 1 + g" using g by simp
    qed
    finally show ?thesis using g by simp
  qed
  have hp: "h * p \<le> R * (2 * h)"
  proof -
    have "h * p \<le> h * (R * (1 + 3 * h))" using p_up h by (intro mult_left_mono) simp_all
    also have "\<dots> = R * (h * (1 + 3 * h))" by simp
    also have "\<dots> \<le> R * (2 * h)"
    proof (rule mult_left_mono)
      have "h * (3 * h) \<le> h * 1" using h by (intro mult_left_mono) simp_all
      thus "h * (1 + 3 * h) \<le> 2 * h" by (simp add: algebra_simps)
      show "0 \<le> R" using R0 by simp
    qed
    finally show ?thesis .
  qed
  have 1: "res - (R - 1) \<le> R * (5 * h)"
  proof -
    have "res - (R - 1) \<le> (p - R) + h * p" using r by (simp add: abs_le_iff)
    also have "\<dots> \<le> R * (3 * h) + R * (2 * h)" using p_up hp by (simp add: algebra_simps)
    finally show ?thesis by (simp add: algebra_simps)
  qed
  have 2: "- (R * (g + 4 * h)) \<le> res - (R - 1)"
  proof -
    have "- (h * p) + (p - R) \<le> res - (R - 1)" using r by (simp add: abs_le_iff)
    moreover have "- (R * (2 * h)) + (R * (1 - 2 * h - g) - R) \<le> - (h * p) + (p - R)"
      using p_lo hp by simp
    ultimately show ?thesis by (simp add: algebra_simps)
  qed
  have "0 \<le> R * g" "0 \<le> R * h" using R0 g h by simp_all
  hence "\<bar>res - (R - 1)\<bar> \<le> R * (g + 5 * h)"
    using 1 2 unfolding abs_le_iff ring_distribs by linarith
  thus ?thesis by (simp add: R_def mult.commute)
qed

lemma binomial_lower:
  assumes "0 \<le> (m::real)"
  shows "1 + of_nat n * m + of_nat n * (of_nat n - 1) / 2 * m\<^sup>2 \<le> (1 + m) ^ n"
proof (induction n)
  case 0
  show ?case by simp
next
  case (Suc n)
  define N :: real where "N = of_nat n"
  define C where "C = N * (N - 1) / 2"
  have C: "0 \<le> C"
  proof (cases n)
    case 0 thus ?thesis by (simp add: C_def N_def)
  next
    case (Suc k) thus ?thesis by (simp add: C_def N_def)
  qed
  have S: "of_nat (Suc n) = N + 1" by (simp add: N_def)
  have e: "(N + 1) * (N + 1 - 1) / 2 = C + N" by (simp add: C_def field_simps)
  have "0 \<le> C * m\<^sup>2 * m" using C assms by simp
  moreover have "(1 + N * m + C * m\<^sup>2) * (1 + m)
      = 1 + (N + 1) * m + (C + N) * m\<^sup>2 + C * m\<^sup>2 * m"
    by (simp add: algebra_simps power2_eq_square)
  ultimately have "1 + (N + 1) * m + (N + 1) * (N + 1 - 1) / 2 * m\<^sup>2
      \<le> (1 + N * m + C * m\<^sup>2) * (1 + m)"
    by (simp only: e)
  also have "\<dots> \<le> (1 + m) ^ n * (1 + m)"
    using Suc.IH assms unfolding N_def C_def by (intro mult_right_mono) simp_all
  finally show ?case unfolding S by (simp add: mult.commute)
qed

lemma twelfth_root_gap:
  assumes "1 / 2 ^ 18 \<le> (a::real)"
  defines "m \<equiv> (1 + a) powr (1 / 12) - 1"
  shows "1 / 2 ^ 22 \<le> m" and "m + 11 / 2 * m\<^sup>2 \<le> a / 12"
proof -
  have a0: "0 < 1 + a" using assms(1) by (smt (verit) divide_pos_pos zero_less_power zero_less_numeral zero_less_one)
  have R12: "(1 + m) ^ 12 = 1 + a"
  proof -
    have "(1 + m) ^ 12 = ((1 + a) powr (1 / 12)) ^ 12" by (simp add: m_def)
    also have "\<dots> = ((1 + a) powr (1 / 12)) powr (of_nat 12)"
      using a0 by (intro powr_realpow[symmetric]) simp
    also have "\<dots> = (1 + a) powr (1 / 12 * of_nat 12)" by (rule powr_powr)
    also have "\<dots> = 1 + a" using a0 by simp
    finally show ?thesis .
  qed
  have "((1 + 1 / 2 ^ 22) ^ 12 :: real) \<le> 1 + 1 / 2 ^ 18"
    by (simp add: power_divide)
  hence le: "((1 + 1 / 2 ^ 22) ^ 12 :: real) \<le> 1 + a" using assms(1) by linarith
  have "(1 + 1 / 2 ^ 22 :: real) = ((1 + 1 / 2 ^ 22) ^ 12) powr (1 / 12)"
  proof -
    have "((1 + 1 / 2 ^ 22 :: real) ^ 12) powr (1 / 12)
        = ((1 + 1 / 2 ^ 22) powr (of_nat 12)) powr (1 / 12)"
      by (subst powr_realpow) simp_all
    also have "\<dots> = (1 + 1 / 2 ^ 22) powr (of_nat 12 * (1 / 12))" by (rule powr_powr)
    finally show ?thesis by simp
  qed
  also have "\<dots> \<le> (1 + a) powr (1 / 12)"
    using le by (intro powr_mono2) simp_all
  finally show m22: "1 / 2 ^ 22 \<le> m" by (simp add: m_def)
  hence m0: "0 \<le> m" by (smt (verit) divide_nonneg_nonneg zero_le_power zero_le_numeral zero_le_one)
  have "1 + of_nat 12 * m + of_nat 12 * (of_nat 12 - 1) / 2 * m\<^sup>2 \<le> (1 + m) ^ 12"
    by (rule binomial_lower[OF m0])
  hence "1 + 12 * m + 66 * m\<^sup>2 \<le> 1 + a" using R12 by simp
  thus "m + 11 / 2 * m\<^sup>2 \<le> a / 12" by simp
qed

lemma monthly_below_twelfth:
  fixes m a v q :: real
  assumes m: "1 / 2 ^ 22 \<le> m" and gap: "m + 11 / 2 * m\<^sup>2 \<le> a / 12"
    and v: "\<bar>v - m\<bar> \<le> 1 / 2 ^ 47 * (1 + m)"
    and q: "\<bar>q - a / 12\<bar> \<le> 1 / 2 ^ 52 * (a / 12)"
  shows "0 < v" and "v < q" and "v < a / 12"
proof -
  have m0: "0 < m" using m by (smt (verit) divide_pos_pos zero_less_power zero_less_numeral zero_less_one)
  have "1 / 2 ^ 22 * m \<le> m * m" using m m0 by (intro mult_right_mono) simp_all
  hence sq: "1 / 2 ^ 22 * m \<le> m\<^sup>2" by (simp add: power2_eq_square)
  from v have "v - m \<le> 1 / 2 ^ 47 * (1 + m) \<and> - (v - m) \<le> 1 / 2 ^ 47 * (1 + m)"
    by (rule abs_le_iff[THEN iffD1])
  hence vl: "m - 1 / 2 ^ 47 * (1 + m) \<le> v" and vu: "v \<le> m + 1 / 2 ^ 47 * (1 + m)"
    by linarith+
  show "0 < v" using vl m by (simp add: field_simps)
  from q have "q - a / 12 \<le> 1 / 2 ^ 52 * (a / 12) \<and> - (q - a / 12) \<le> 1 / 2 ^ 52 * (a / 12)"
    by (rule abs_le_iff[THEN iffD1])
  hence ql: "a / 12 - 1 / 2 ^ 52 * (a / 12) \<le> q" by linarith
  have "m + 1 / 2 ^ 47 * (1 + m) < (m + 11 / 2 * (1 / 2 ^ 22 * m)) * (1 - 1 / 2 ^ 52)"
    using m by (simp add: field_simps)
  also have "\<dots> \<le> (m + 11 / 2 * m\<^sup>2) * (1 - 1 / 2 ^ 52)"
    using sq by (intro mult_right_mono) simp_all
  also have "\<dots> \<le> a / 12 * (1 - 1 / 2 ^ 52)"
    using gap by (intro mult_right_mono) simp_all
  finally have lt: "m + 1 / 2 ^ 47 * (1 + m) < a / 12 * (1 - 1 / 2 ^ 52)" .
  have "a / 12 * (1 - 1 / 2 ^ 52) = a / 12 - 1 / 2 ^ 52 * (a / 12)"
    by (simp only: right_diff_distrib mult_1_right mult.commute)
  thus "v < q" using lt vu ql by linarith
  have "0 \<le> 11 / 2 * m\<^sup>2" by simp
  hence "0 \<le> a" using gap m0 by linarith
  hence "a / 12 * (1 - 1 / 2 ^ 52) \<le> a / 12" by (simp add: field_simps)
  thus "v < a / 12" using lt vu by linarith
qed

lemma ln2_le_three_quarters: "ln (2::real) \<le> 3 / 4"
proof -
  have "1 + 3 / 4 + (3 / 4)\<^sup>2 / 2 \<le> exp (3 / 4 :: real)"
    by (rule exp_lower_Taylor_quadratic) simp
  hence "(2::real) \<le> exp (3 / 4)" by (simp add: power2_eq_square)
  hence "ln (2::real) \<le> ln (exp (3 / 4))" by (subst ln_le_cancel_iff) simp_all
  thus ?thesis by simp
qed

lemma tiny_power_bound:
  assumes "1 \<le> (s::real)" "s \<le> 2 powr 1024"
  shows "s powr (1 / 12 - 6004799503160661 / 72057594037927936) \<le> 1 + 1 / 2 ^ 48 + 1 / 2 ^ 96"
proof -
  let ?d = "1 / 12 - 6004799503160661 / 72057594037927936 :: real"
  have d: "?d = 1 / (3 * 2 ^ 56)" by simp
  have "s powr ?d \<le> (2 powr 1024) powr ?d"
    using assms by (intro powr_mono2) simp_all
  also have "\<dots> = 2 powr (1024 * ?d)" by (rule powr_powr)
  also have "\<dots> = exp (1024 * ?d * ln 2)" by (simp add: powr_def)
  also have "\<dots> \<le> exp (1024 * ?d * (3 / 4))"
    using ln2_le_three_quarters by (simp only: exp_le_cancel_iff d) simp
  also have "\<dots> \<le> 1 + (1024 * ?d * (3 / 4)) + (1024 * ?d * (3 / 4))\<^sup>2"
    by (intro exp_bound) simp_all
  also have "\<dots> \<le> 1 + 1 / 2 ^ 48 + 1 / 2 ^ 96" by (simp add: power2_eq_square)
  finally show ?thesis .
qed

lemma twelfth_root_enclosure:
  fixes L U x :: real
  assumes "0 < L" "L ^ 12 \<le> x" "x \<le> U ^ 12" "0 < U"
  shows "L \<le> x powr (1 / 12)" and "x powr (1 / 12) \<le> U"
proof -
  have root: "(y ^ 12) powr (1 / 12) = y" if "0 < y" for y :: real
  proof -
    have "(y ^ 12) powr (1 / 12) = (y powr (of_nat 12)) powr (1 / 12)"
      using that by (subst powr_realpow) simp_all
    also have "\<dots> = y powr (of_nat 12 * (1 / 12))" by (rule powr_powr)
    finally show ?thesis using that by simp
  qed
  have "(L ^ 12) powr (1 / 12) \<le> x powr (1 / 12)"
    using assms(1,2) by (intro powr_mono2) simp_all
  thus "L \<le> x powr (1 / 12)" using root[OF assms(1)] by simp
  have "0 < L ^ 12" using assms(1) by simp
  hence "0 \<le> x" using assms(2) by linarith
  hence "x powr (1 / 12) \<le> (U ^ 12) powr (1 / 12)"
    using assms(3) by (intro powr_mono2) simp_all
  thus "x powr (1 / 12) \<le> U" using root[OF assms(4)] by simp
qed

lemma twelfth_root_five_percent:
  "100407412378 / 10 ^ 11 \<le> (1 + 3602879701896397 / 72057594037927936 :: real) powr (1 / 12)"
  "(1 + 3602879701896397 / 72057594037927936 :: real) powr (1 / 12) \<le> 100407412379 / 10 ^ 11"
proof -
  have 1: "((100407412378 / 10 ^ 11) ^ 12 :: real) \<le> 1 + 3602879701896397 / 72057594037927936"
    by (simp add: power_divide)
  have 2: "(1 + 3602879701896397 / 72057594037927936 :: real) \<le> (100407412379 / 10 ^ 11) ^ 12"
    by (simp add: power_divide)
  show "100407412378 / 10 ^ 11 \<le> (1 + 3602879701896397 / 72057594037927936 :: real) powr (1 / 12)"
    by (rule twelfth_root_enclosure(1)[OF _ 1 2]) simp_all
  show "(1 + 3602879701896397 / 72057594037927936 :: real) powr (1 / 12) \<le> 100407412379 / 10 ^ 11"
    by (rule twelfth_root_enclosure(2)[OF _ 1 2]) simp_all
qed

lemma seven_ulps_power:
  "1 + 1 / 2 ^ 53 < (1 + 7 / 2 ^ 52 :: real) powr (6004799503160661 / 72057594037927936)"
  "(1 + 7 / 2 ^ 52 :: real) powr (6004799503160661 / 72057594037927936) < 1 + 3 / 2 ^ 53"
proof -
  let ?x = "7 / 2 ^ 52 :: real"
  let ?c = "6004799503160661 / 72057594037927936 :: real"
  have e: "(1 + ?x) powr ?c = exp (?c * ln (1 + ?x))" by (simp add: powr_def)
  have "?x - ?x\<^sup>2 \<le> ln (1 + ?x)" by (rule ln_one_plus_pos_lower_bound) simp_all
  hence "?c * (?x - ?x\<^sup>2) \<le> ?c * ln (1 + ?x)" by (intro mult_left_mono) simp_all
  moreover have "1 + ?c * ln (1 + ?x) \<le> exp (?c * ln (1 + ?x))"
    using exp_ge_add_one_self[of "?c * ln (1 + ?x)"] by (simp add: add.commute)
  moreover have "1 + 1 / 2 ^ 53 < 1 + ?c * (?x - ?x\<^sup>2)" by (simp add: power2_eq_square)
  ultimately show "1 + 1 / 2 ^ 53 < (1 + ?x) powr ?c" unfolding e by linarith
  have "ln (1 + ?x) \<le> ?x" by (rule ln_add_one_self_le_self) simp
  hence "?c * ln (1 + ?x) \<le> ?c * ?x" by (intro mult_left_mono) simp_all
  hence "exp (?c * ln (1 + ?x)) \<le> exp (?c * ?x)" by simp
  also have "\<dots> \<le> 1 + ?c * ?x + (?c * ?x)\<^sup>2" by (intro exp_bound) simp_all
  also have "\<dots> < 1 + 3 / 2 ^ 53" by (simp add: power2_eq_square)
  finally show "(1 + ?x) powr ?c < 1 + 3 / 2 ^ 53" unfolding e .
qed

lemma round64_rel:
  assumes "1 \<le> v" "v \<le> max_double"
  shows "\<exists>r. round64 v = Fin r \<and> 1 \<le> r \<and> r \<le> max_double \<and> \<bar>r - v\<bar> \<le> pow2 (- 52) * v"
proof -
  from round64_err[of v] assms obtain r where r: "round64 v = Fin r"
    "\<bar>r - v\<bar> \<le> pow2 (- 53) * \<bar>v\<bar> + pow2 (- 1075)" "\<bar>r\<bar> \<le> max_double" by auto
  have "pow2 0 \<le> r" by (rule round64_ge_pow2[OF _ _ r(1)]) (use assms in simp_all)
  hence r1: "1 \<le> r" by simp
  have "pow2 (- 1075) \<le> pow2 (- 53)" by (rule pow2_mono) simp
  also have "\<dots> \<le> pow2 (- 53) * v" using assms(1) by simp
  finally have "pow2 (- 53) * \<bar>v\<bar> + pow2 (- 1075) \<le> 2 * pow2 (- 53) * v"
    using assms(1) by (simp add: mult.commute)
  moreover have "2 * pow2 (- 53) = pow2 (- 52)" using pow2_add[of 1 "- 53"] by (simp add: pow2_def)
  ultimately have "\<bar>r - v\<bar> \<le> pow2 (- 52) * v" using r(2) by simp
  thus ?thesis using r r1 by auto
qed

lemma and_then_finite_or_overflow:
  "and_then (finite_or_overflow z) Inr = finite_or_overflow z"
  by (cases z) (simp_all add: finite_or_overflow_def)

lemma fpow_pos:
  assumes "0 < s"
  shows "fpow (Fin s) (Fin t) = finite_or_overflow (round64 (s powr t))"
proof (cases "t = 0")
  case True
  thus ?thesis using assms by simp
next
  case t: False
  show ?thesis
  proof (cases "s = 1")
    case True
    thus ?thesis using t by simp
  next
    case False
    hence "\<bar>s\<bar> \<noteq> 1" "\<bar>s\<bar> = s" "\<not> s < 0" "s \<noteq> 0" using assms by simp_all
    thus ?thesis using t by (simp add: and_then_finite_or_overflow)
  qed
qed

lemma pow2_m52_small: "pow2 (- 52) \<le> 1 / 1000" "0 < pow2 (- 52)"
  by (simp_all add: pow2_def)

lemma annual_to_monthly_rate_error:
  assumes "0 \<le> a" "a \<le> pow2 1023"
  shows "\<exists>v. annual_to_monthly_rate (Fin a) = Inr (Fin v) \<and> 0 \<le> v
           \<and> \<bar>v - ((1 + a) powr (1 / 12) - 1)\<bar> \<le> pow2 (- 47) * (1 + a) powr (1 / 12)"
proof -
  let ?c = "6004799503160661 / 72057594037927936 :: real"
  let ?h = "pow2 (- 52)"
  have a1: "1 \<le> 1 + a" "1 + a \<le> max_double"
    using assms pow2_1023_le_max by simp_all
  from round64_rel[OF a1] obtain s where s: "round64 (1 + a) = Fin s" "1 \<le> s"
    "s \<le> max_double" "\<bar>s - (1 + a)\<bar> \<le> ?h * (1 + a)" by blast
  have sc1: "1 \<le> s powr ?c" using s(2) by (simp add: ge_one_powr_ge_zero)
  have "s powr ?c \<le> s powr 1" using s(2) by (intro powr_mono) simp_all
  hence sc2: "s powr ?c \<le> max_double" using s(2,3) by simp
  from round64_rel[OF sc1 sc2] obtain p where p: "round64 (s powr ?c) = Fin p" "1 \<le> p"
    "p \<le> max_double" "\<bar>p - s powr ?c\<bar> \<le> ?h * s powr ?c" by blast
  have "\<bar>p - 1\<bar> \<le> max_double" using p(2,3) by simp
  from round64_err[OF this] obtain res where res: "round64 (p - 1) = Fin res"
    "\<bar>res - (p - 1)\<bar> \<le> pow2 (- 53) * \<bar>p - 1\<bar> + pow2 (- 1075)" by blast
  have "pow2 (- 1075) \<le> pow2 (- 53)" by (rule pow2_mono) simp
  hence "pow2 (- 53) * \<bar>p - 1\<bar> + pow2 (- 1075) \<le> pow2 (- 53) * p"
    using p(2) by (simp add: algebra_simps)
  also have "\<dots> \<le> ?h * p" using p(2) pow2_mono[of "- 53" "- 52"] by (intro mult_right_mono) simp_all
  finally have r: "\<bar>res - (p - 1)\<bar> \<le> ?h * p" using res(2) by simp
  have "s \<le> pow2 1024" using s(3) max_double_less by simp
  hence "s \<le> 2 powr 1024" by (simp add: pow2_powr)
  from tiny_power_bound[OF s(2) this]
  have g: "s powr (1 / 12 - ?c) \<le> 1 + (1 / 2 ^ 48 + 1 / 2 ^ 96)" by simp
  have "\<bar>res - ((1 + a) powr (1 / 12) - 1)\<bar>
      \<le> ((1 / 2 ^ 48 + 1 / 2 ^ 96) + 5 * ?h) * (1 + a) powr (1 / 12)"
    by (rule twelfth_root_error[OF assms(1) pow2_m52_small(2) pow2_m52_small(1) _ s(4) s(2) _ g p(4) r])
       simp_all
  moreover have "(1 / 2 ^ 48 + 1 / 2 ^ 96) + 5 * ?h \<le> pow2 (- 47)" by (simp add: pow2_def)
  hence "((1 / 2 ^ 48 + 1 / 2 ^ 96) + 5 * ?h) * (1 + a) powr (1 / 12)
      \<le> pow2 (- 47) * (1 + a) powr (1 / 12)" by (intro mult_right_mono) simp_all
  ultimately have e: "\<bar>res - ((1 + a) powr (1 / 12) - 1)\<bar> \<le> pow2 (- 47) * (1 + a) powr (1 / 12)"
    by linarith
  have "fpow (Fin s) (Fin ?c) = Inr (Fin p)" using s(2) p(1) by (simp add: fpow_pos del: fpow.simps)
  hence "annual_to_monthly_rate (Fin a) = Inr (Fin res)"
    using assms(1) s(1) res(1)
    by (simp add: annual_to_monthly_rate_def int_truediv_1_12 fsub_def del: fpow.simps)
  moreover have "0 \<le> res" using round64_nonneg[of "p - 1"] p(2) res(1) by simp
  ultimately show ?thesis using e by blast
qed

lemma round64_near:
  assumes "- 1022 \<le> e" "pow2 e \<le> \<bar>v\<bar>" "\<bar>v\<bar> < pow2 (e + 1)"
    and "\<bar>v / pow2 (e - 52) - of_int n\<bar> < 1 / 2"
  shows "round64 v = clip64 (of_int n * pow2 (e - 52))"
  using rne_eqI[OF assms(4)] by (simp add: round64_eval[OF assms(1-3)] quantize_def)

lemma half_ulp_absorbed: "round64 (1 + 1 / 2 ^ 53) = Fin 1"
  by (subst round64_eval[of 0]) (simp_all add: pow2_def quantize_def clip64_def rne_def)

lemma is_double_half_ulp: "is_double (1 / 2 ^ 53)"
  unfolding is_double_def
  by (subst round64_eval[of "- 53"]) (simp_all add: pow2_def quantize_def clip64_def rne_def)

lemma is_double_seven_ulps: "is_double (7 / 2 ^ 52)"
  unfolding is_double_def
  by (subst round64_eval[of "- 50"]) (simp_all add: pow2_def quantize_def clip64_def rne_def)

lemma round64_one_plus_seven_ulps: "round64 (1 + 7 / 2 ^ 52) = Fin (1 + 7 / 2 ^ 52)"
  by (subst round64_eval[of 0]) (simp_all add: pow2_def quantize_def clip64_def rne_def)

lemma round64_one_ulp: "round64 (1 / 2 ^ 52) = Fin (1 / 2 ^ 52)"
  by (subst round64_eval[of "- 52"]) (simp_all add: pow2_def quantize_def clip64_def rne_def)

lemma round64_seven_ulps_twelfth:
  "round64 (7 / 2 ^ 52 / 12) = Fin (5254199565265579 / 2 ^ 105)"
  by (subst round64_eval[of "- 53"]) (simp_all add: pow2_def quantize_def clip64_def rne_def)

lemma round64_just_above_one:
  assumes "1 + 1 / 2 ^ 53 < w" "w < 1 + 3 / 2 ^ 53"
  shows "round64 w = Fin (1 + 1 / 2 ^ 52)"
proof -
  have w0: "\<bar>w\<bar> = w" using assms(1) by simp
  have "round64 w = clip64 (of_int (2 ^ 52 + 1) * pow2 (0 - 52))"
  proof (rule round64_near)
    show "pow2 0 \<le> \<bar>w\<bar>" unfolding w0 using assms(1) by simp
    show "\<bar>w\<bar> < pow2 (0 + 1)" unfolding w0 using assms(2) by (simp add: pow2_def)
    have "w / pow2 (0 - 52) = w * 2 ^ 52" by (simp add: pow2_def)
    moreover have "2 ^ 52 + 1 / 2 < w * 2 ^ 52" using assms(1) by (simp add: field_simps)
    moreover have "w * 2 ^ 52 < 2 ^ 52 + 3 / 2" using assms(2) by (simp add: field_simps)
    ultimately show "\<bar>w / pow2 (0 - 52) - of_int (2 ^ 52 + 1)\<bar> < 1 / 2"
      unfolding abs_less_iff by simp
  qed simp
  also have "\<dots> = Fin (1 + 1 / 2 ^ 52)" by (simp add: pow2_def clip64_def)
  finally show ?thesis .
qed

lemma fpow_seven_ulps:
  "fpow (Fin (1 + 7 / 2 ^ 52)) (Fin (6004799503160661 / 72057594037927936))
     = Inr (Fin (1 + 1 / 2 ^ 52))"
proof -
  have "round64 ((1 + 7 / 2 ^ 52) powr (6004799503160661 / 72057594037927936))
      = Fin (1 + 1 / 2 ^ 52)"
    by (rule round64_just_above_one) (rule seven_ulps_power)+
  moreover have "(0::real) < 1 + 7 / 2 ^ 52" by simp
  ultimately show ?thesis by (simp only: fpow_pos finite_or_overflow_Fin)
qed

lemma annual_to_monthly_rate_seven_ulps:
  "annual_to_monthly_rate (Fin (7 / 2 ^ 52)) = Inr (Fin (1 / 2 ^ 52))"
  using round64_one_plus_seven_ulps fpow_seven_ulps round64_one_ulp
  by (simp add: annual_to_monthly_rate_def int_truediv_1_12 fsub_def del: fpow.simps)

lemma annual_to_monthly_rate_half_ulp:
  "annual_to_monthly_rate (Fin (1 / 2 ^ 53)) = Inr (Fin 0)"
  using half_ulp_absorbed
  by (simp add: annual_to_monthly_rate_def int_truediv_1_12 fsub_def del: fpow.simps)

lemma float_div_twelve:
  assumes "pow2 (- 18) \<le> a" "a \<le> pow2 1023"
  shows "\<exists>q. float_div (Fin a) (PyInt 12) = Inr (Fin q) \<and> \<bar>q - a / 12\<bar> \<le> 1 / 2 ^ 52 * (a / 12)"
proof -
  have a0: "0 < a" using assms(1) pow2_pos[of "- 18"] by linarith
  have "a / 12 \<le> pow2 1023" using assms(2) a0 by simp
  hence "\<bar>a / 12\<bar> \<le> max_double" using a0 max_double_ge by simp
  from round64_err[OF this] obtain q where q: "round64 (a / 12) = Fin q"
    "\<bar>q - a / 12\<bar> \<le> pow2 (- 53) * \<bar>a / 12\<bar> + pow2 (- 1075)" by blast
  have "pow2 (- 1075) \<le> pow2 (- 75)" by (rule pow2_mono) simp
  also have "\<dots> = pow2 (- 53) * pow2 (- 22)" using pow2_add[of "- 53" "- 22"] by simp
  also have "pow2 (- 22) \<le> a / 12"
  proof -
    have "12 * pow2 (- 22) \<le> pow2 (- 18)" by (simp add: pow2_def)
    thus ?thesis using assms(1) by simp
  qed
  finally have t: "pow2 (- 1075) \<le> pow2 (- 53) * (a / 12)" by simp
  have ab: "\<bar>a / 12\<bar> = a / 12" using a0 by simp
  have "\<bar>q - a / 12\<bar> \<le> pow2 (- 53) * (a / 12) + pow2 (- 53) * (a / 12)"
    using q(2) t unfolding ab by linarith
  also have "\<dots> = 1 / 2 ^ 52 * (a / 12)" by (simp add: pow2_def)
  finally have "\<bar>q - a / 12\<bar> \<le> 1 / 2 ^ 52 * (a / 12)" .
  moreover have "float_div (Fin a) (PyInt 12) = Inr (Fin q)"
    using q(1) float_of_int_small[of 12] by (simp add: float_div_def)
  ultimately show ?thesis by blast
qed

lemma annual_to_monthly_rate_below_twelfth:
  assumes "pow2 (- 18) \<le> a" "a \<le> pow2 1023"
  shows "\<exists>v q. annual_to_monthly_rate (Fin a) = Inr (Fin v)
           \<and> float_div (Fin a) (PyInt 12) = Inr (Fin q)
           \<and> 0 < v \<and> v < q \<and> v < a / 12"
proof -
  define m where "m = (1 + a) powr (1 / 12) - 1"
  have a18: "1 / 2 ^ 18 \<le> a" using assms(1) by (simp add: pow2_def)
  have a0: "0 \<le> a" using assms(1) pow2_pos[of "- 18"] by linarith
  have m: "1 / 2 ^ 22 \<le> m" and gap: "m + 11 / 2 * m\<^sup>2 \<le> a / 12"
    unfolding m_def by (rule twelfth_root_gap[OF a18])+
  from annual_to_monthly_rate_error[OF a0 assms(2)] obtain v
    where v: "annual_to_monthly_rate (Fin a) = Inr (Fin v)"
      "\<bar>v - m\<bar> \<le> pow2 (- 47) * (1 + a) powr (1 / 12)" unfolding m_def by blast
  have "pow2 (- 47) * (1 + a) powr (1 / 12) = 1 / 2 ^ 47 * (1 + m)"
    by (simp add: m_def pow2_def)
  hence v': "\<bar>v - m\<bar> \<le> 1 / 2 ^ 47 * (1 + m)" using v(2) by simp
  from float_div_twelve[OF assms] obtain q
    where q: "float_div (Fin a) (PyInt 12) = Inr (Fin q)"
      "\<bar>q - a / 12\<bar> \<le> 1 / 2 ^ 52 * (a / 12)" by blast
  have "0 < v" "v < q" "v < a / 12"
    by (rule monthly_below_twelfth[OF m gap v' q(2)])+
  thus ?thesis using v(1) q(1) by blast
qed

lemma pow2_1023_ge_one: "1 \<le> pow2 1023"
  using pow2_mono[of 0 1023] by simp

lemma annual_to_monthly_rate_five_percent:
  "\<exists>v. annual_to_monthly_rate (Fin (3602879701896397 / 72057594037927936)) = Inr (Fin v)
       \<and> 40741237 / 10 ^ 10 \<le> v \<and> v \<le> 40741239 / 10 ^ 10"
proof -
  let ?a = "3602879701896397 / 72057594037927936 :: real"
  define R where "R = (1 + ?a) powr (1 / 12)"
  have R: "100407412378 / 10 ^ 11 \<le> R" "R \<le> 100407412379 / 10 ^ 11"
    unfolding R_def by (rule twelfth_root_five_percent)+
  have "?a \<le> pow2 1023" using pow2_1023_ge_one by simp
  from annual_to_monthly_rate_error[OF _ this] obtain v
    where v: "annual_to_monthly_rate (Fin ?a) = Inr (Fin v)"
      "\<bar>v - (R - 1)\<bar> \<le> pow2 (- 47) * R" unfolding R_def by auto
  have "pow2 (- 47) * R \<le> 1 / 10 ^ 14 * 2"
    using R by (intro mult_mono) (simp_all add: pow2_def)
  hence "\<bar>v - (R - 1)\<bar> \<le> 2 / 10 ^ 14" using v(2) by simp
  hence "40741237 / 10 ^ 10 \<le> v \<and> v \<le> 40741239 / 10 ^ 10"
    using R unfolding abs_le_iff by simp
  thus ?thesis using v(1) by blast
qed

subsection \<open>The error of a compounded power\<close>

lemma exp_near_one:
  fixes x D :: real
  assumes "\<bar>x\<bar> \<le> D" "D \<le> 1 / 2"
  shows "\<bar>exp x - 1\<bar> \<le> 2 * D"
proof -
  have D0: "0 \<le> D" using assms(1) by linarith
  have lo: "1 - D \<le> exp x" using exp_ge_add_one_self[of x] assms(1) by linarith
  have up: "exp x \<le> 1 + 2 * D"
  proof (cases "0 \<le> x")
    case True
    hence "exp x \<le> 1 + x + x\<^sup>2" using assms by (intro exp_bound) simp_all
    moreover have "x\<^sup>2 \<le> D * 1"
    proof -
      have "x * x \<le> D * (1 / 2)" using True assms by (intro mult_mono) simp_all
      thus ?thesis using D0 by (simp add: power2_eq_square)
    qed
    ultimately show ?thesis using assms(1) by simp
  next
    case False
    hence "exp x \<le> 1" by simp
    thus ?thesis using D0 by linarith
  qed
  show ?thesis using lo up D0 unfolding abs_le_iff by simp
qed

lemma ln_ratio_bound:
  fixes s b d :: real
  assumes b: "0 < b" and s: "\<bar>s - b\<bar> \<le> d * b" and d: "0 \<le> d" "d \<le> 1 / 2"
  shows "0 < s" and "\<bar>ln s - ln b\<bar> \<le> 2 * d"
proof -
  have sl: "b * (1 - d) \<le> s" and su: "s \<le> b * (1 + d)"
    using s unfolding abs_le_iff by (simp_all add: algebra_simps)
  have "0 < b * (1 - d)" using b d by simp
  thus s0: "0 < s" using sl by linarith
  have e: "ln s - ln b = ln (s / b)" using s0 b by (simp add: ln_div)
  have "s / b \<le> 1 + d" using su b by (simp add: field_simps)
  hence "ln (s / b) \<le> ln (1 + d)" using s0 b d by (subst ln_le_cancel_iff) simp_all
  also have "\<dots> \<le> d" using d by (intro ln_add_one_self_le_self)
  finally have up: "ln (s / b) \<le> 2 * d" using d by simp
  have "- d - 2 * d\<^sup>2 \<le> ln (1 - d)" using d by (intro ln_one_minus_pos_lower_bound) simp_all
  moreover have "d\<^sup>2 \<le> d * (1 / 2)"
    using d unfolding power2_eq_square by (intro mult_left_mono) simp_all
  ultimately have "- (2 * d) \<le> ln (1 - d)" by simp
  also have "ln (1 - d) \<le> ln (s / b)"
  proof -
    have "1 - d \<le> s / b" using sl b by (simp add: field_simps)
    thus ?thesis using d s0 b by (subst ln_le_cancel_iff) simp_all
  qed
  finally show "\<bar>ln s - ln b\<bar> \<le> 2 * d" using up e by (simp add: abs_le_iff)
qed

lemma powr_perturb:
  fixes b s t T d k :: real
  assumes b: "1 \<le> b" and s: "\<bar>s - b\<bar> \<le> d * b" and d: "0 \<le> d" "d \<le> 1 / 2"
    and t: "0 \<le> t" and k: "\<bar>t - T\<bar> * ln b \<le> k"
    and D: "2 * d * t + k \<le> 1 / 2"
  shows "\<bar>s powr t - b powr T\<bar> \<le> 2 * (2 * d * t + k) * b powr T"
proof -
  have b0: "0 < b" using b by simp
  have s0: "0 < s" and l: "\<bar>ln s - ln b\<bar> \<le> 2 * d"
    by (rule ln_ratio_bound[OF b0 s d])+
  define x where "x = t * ln s - T * ln b"
  have x: "x = t * (ln s - ln b) + (t - T) * ln b" by (simp add: x_def algebra_simps)
  have lb: "0 \<le> ln b" using b by simp
  have "\<bar>t * (ln s - ln b)\<bar> \<le> t * (2 * d)"
    unfolding abs_mult using t l by (intro mult_mono) simp_all
  moreover have "\<bar>(t - T) * ln b\<bar> \<le> k" unfolding abs_mult using k lb by simp
  ultimately have ax: "\<bar>x\<bar> \<le> 2 * d * t + k"
    unfolding x using abs_triangle_ineq[of "t * (ln s - ln b)" "(t - T) * ln b"]
    by (simp add: mult.commute mult.left_commute)
  have "s powr t = exp (T * ln b + x)" using s0 by (simp add: powr_def x_def)
  also have "\<dots> = b powr T * exp x" using b0 by (simp add: powr_def exp_add)
  finally have "s powr t - b powr T = b powr T * (exp x - 1)" by (simp add: algebra_simps)
  hence "\<bar>s powr t - b powr T\<bar> = b powr T * \<bar>exp x - 1\<bar>" by (simp add: abs_mult)
  also have "\<dots> \<le> b powr T * (2 * (2 * d * t + k))"
    using exp_near_one[OF ax D] by (intro mult_left_mono) simp_all
  finally show ?thesis by (simp add: mult.commute)
qed

lemma rate_step_error:
  fixes x q s u z :: real
  assumes x: "0 \<le> x" and u: "0 \<le> u" "u \<le> 1 / 1000" and z: "0 \<le> z" "z \<le> u"
    and q0: "0 \<le> q" and q: "\<bar>q - x\<bar> \<le> u * x + z"
    and s: "\<bar>s - (1 + q)\<bar> \<le> u * (1 + q) + z"
  shows "\<bar>s - (1 + x)\<bar> \<le> 4 * u * (1 + x)"
proof -
  define B where "B = u * (1 + x)"
  have B0: "0 \<le> B" unfolding B_def using x u by simp
  have uB: "u \<le> B" unfolding B_def using x u by (simp add: mult_le_cancel_left1)
  have e1: "u * x + z \<le> B" unfolding B_def using z by (simp add: algebra_simps)
  have "u * (u * x + z) \<le> u * B" using e1 u(1) by (rule mult_left_mono)
  moreover have "u * B \<le> 1 * B" using u B0 by (intro mult_right_mono) simp_all
  ultimately have ue: "u * (u * x + z) \<le> B" by simp
  have "q \<le> x + (u * x + z)" using q unfolding abs_le_iff by simp
  hence "u * q \<le> u * (x + (u * x + z))" using u by (intro mult_left_mono) simp_all
  hence "u * (1 + q) \<le> B + u * (u * x + z)" by (simp add: B_def algebra_simps)
  hence "u * (1 + q) + z \<le> 3 * B" using ue z uB by linarith
  hence "\<bar>s - (1 + q)\<bar> \<le> 3 * B" using s by linarith
  moreover have "\<bar>q - x\<bar> \<le> B" using q e1 by linarith
  ultimately have "\<bar>s - (1 + x)\<bar> \<le> 4 * B" by linarith
  thus ?thesis by (simp add: B_def)
qed

lemma rounded_power_error:
  fixes b s t T d k p h :: real
  assumes b: "1 \<le> b" and s: "\<bar>s - b\<bar> \<le> d * b" and d: "0 \<le> d" "d \<le> 1 / 2"
    and t: "0 \<le> t" and k: "\<bar>t - T\<bar> * ln b \<le> k"
    and D: "2 * d * t + k \<le> 1 / 2"
    and p: "\<bar>p - s powr t\<bar> \<le> h * s powr t" and h: "0 \<le> h"
  shows "s powr t \<le> 2 * b powr T"
    and "\<bar>p - b powr T\<bar> \<le> (2 * (2 * d * t + k) + 2 * h) * b powr T"
proof -
  define E where "E = b powr T"
  define A where "A = 2 * (2 * d * t + k)"
  have E0: "0 \<le> E" by (simp add: E_def)
  have st: "\<bar>s powr t - E\<bar> \<le> A * E"
    unfolding E_def A_def by (rule powr_perturb[OF b s d t k D])
  have A1: "A \<le> 1" using D by (simp add: A_def)
  have "A * E \<le> 1 * E" using A1 E0 by (intro mult_right_mono) simp_all
  hence 2: "s powr t \<le> 2 * E" using st by linarith
  thus "s powr t \<le> 2 * b powr T" by (simp add: E_def)
  have "h * s powr t \<le> h * (2 * E)" using 2 h by (intro mult_left_mono) simp_all
  hence "\<bar>p - E\<bar> \<le> A * E + 2 * h * E" using p st by linarith
  thus "\<bar>p - b powr T\<bar> \<le> (2 * (2 * d * t + k) + 2 * h) * b powr T"
    by (simp add: E_def A_def algebra_simps)
qed


lemma times_principal_error:
  fixes x E p v a u z :: real
  assumes x: "0 \<le> x" and E: "0 \<le> E" and p: "\<bar>p - E\<bar> \<le> a * E" and a: "0 \<le> a" "a \<le> 1"
    and v: "\<bar>v - x * p\<bar> \<le> u * (x * p) + z" and u: "0 \<le> u"
  shows "\<bar>v - x * E\<bar> \<le> (a + 2 * u) * (x * E) + z"
proof -
  have xE: "0 \<le> x * E" using x E by simp
  have "a * E \<le> 1 * E" using a E by (intro mult_right_mono) simp_all
  hence "p \<le> 2 * E" using p by linarith
  hence "x * p \<le> x * (2 * E)" using x by (intro mult_left_mono) simp_all
  hence "u * (x * p) \<le> u * (x * (2 * E))" using u by (rule mult_left_mono)
  hence 1: "\<bar>v - x * p\<bar> \<le> 2 * u * (x * E) + z" using v by (simp add: algebra_simps)
  have "\<bar>x * p - x * E\<bar> = x * \<bar>p - E\<bar>" using x by (simp add: abs_mult right_diff_distrib[symmetric])
  also have "\<dots> \<le> x * (a * E)" using p x by (intro mult_left_mono) simp_all
  finally have 2: "\<bar>x * p - x * E\<bar> \<le> a * (x * E)" by (simp add: algebra_simps)
  have "\<bar>v - x * E\<bar> \<le> a * (x * E) + 2 * u * (x * E) + z" using 1 2 by linarith
  thus ?thesis by (simp add: algebra_simps)
qed

lemma double_le_max: "is_double r \<Longrightarrow> \<bar>r\<bar> \<le> max_double"
  unfolding is_double_def by (rule round64_finite_le_max)

lemma round64_one_plus_finite:
  assumes "0 \<le> q" "q \<le> max_double"
  shows "\<exists>s. round64 (1 + q) = Fin s"
proof (cases "1 + q \<le> max_double")
  case True
  hence "\<bar>1 + q\<bar> \<le> max_double" using assms(1) by simp
  from round64_err[OF this] show ?thesis by blast
next
  case False
  define v where "v = 1 + q"
  have v: "max_double < v" "v \<le> max_double + 1" using False assms by (simp_all add: v_def)
  have g: "max_double = of_int (2 ^ 53 - 1) * pow2 971"
    using max_double_grid[of 1023] by simp
  have big: "2 < pow2 971" using pow2_strict_mono[of 1 971] by (simp add: pow2_def)
  have av: "\<bar>v\<bar> = v" using v(1) max_double_ge pow2_pos[of 1023] by linarith
  have "round64 v = clip64 (of_int (2 ^ 53 - 1) * pow2 (1023 - 52))"
  proof (rule round64_near)
    show "pow2 1023 \<le> \<bar>v\<bar>" unfolding av using v(1) max_double_ge by linarith
    have "max_double + 1 < pow2 1024" using big by (simp add: max_double_def)
    thus "\<bar>v\<bar> < pow2 (1023 + 1)" unfolding av using v(2) by simp
    have "v / pow2 (1023 - 52) - of_int (2 ^ 53 - 1) = (v - max_double) / pow2 971"
      unfolding g by (simp add: field_simps)
    moreover have "0 < (v - max_double) / pow2 971" using v(1) by simp
    moreover have "(v - max_double) / pow2 971 \<le> 1 / pow2 971"
      using v(2) by (intro divide_right_mono) simp_all
    moreover have "1 / pow2 971 < 1 / 2" using big by (simp add: field_simps)
    ultimately show "\<bar>v / pow2 (1023 - 52) - of_int (2 ^ 53 - 1)\<bar> < 1 / 2" by linarith
  qed simp
  also have "\<dots> = clip64 max_double" unfolding g by simp
  also have "\<dots> = Fin max_double"
    using max_double_less max_double_ge pow2_pos[of 1023] by (intro clip64_Fin) linarith
  finally show ?thesis unfolding v_def by blast
qed


lemma rate_per_period:
  assumes r: "0 \<le> r" "r \<le> max_double" and n: "0 < n" "n < 2 ^ 53"
  shows "\<exists>q s. float_div (Fin r) (PyInt n) = Inr (Fin q) \<and> fadd (Fin 1) (Fin q) = Fin s
           \<and> 1 \<le> s \<and> s \<le> max_double
           \<and> \<bar>s - (1 + r / of_int n)\<bar> \<le> pow2 (- 51) * (1 + r / of_int n)"
proof -
  define x where "x = r / of_int n"
  have n1: "1 \<le> (of_int n :: real)" using n(1) by simp
  have x0: "0 \<le> x" unfolding x_def using r(1) n(1) by simp
  have "x \<le> r" unfolding x_def using r(1) n1 by (simp add: field_simps mult_le_cancel_left1)
  hence "\<bar>x\<bar> \<le> max_double" using x0 r(2) by simp
  from round64_err[OF this] obtain q where q: "round64 x = Fin q"
    "\<bar>q - x\<bar> \<le> pow2 (- 53) * \<bar>x\<bar> + pow2 (- 1075)" "\<bar>q\<bar> \<le> max_double" by blast
  have q0: "0 \<le> q" using round64_nonneg[OF x0] q(1) by simp
  have qe: "\<bar>q - x\<bar> \<le> pow2 (- 53) * x + pow2 (- 1075)" using q(2) x0 by simp
  from round64_one_plus_finite[OF q0] q(3) q0 obtain s where s: "round64 (1 + q) = Fin s" by auto
  have "pow2 0 \<le> s" by (rule round64_ge_pow2[OF _ _ s]) (use q0 in simp_all)
  hence s1: "1 \<le> s" by simp
  have sm: "s \<le> max_double" using round64_finite_le_max[OF s] by simp
  have se: "\<bar>s - (1 + q)\<bar> \<le> pow2 (- 53) * (1 + q) + pow2 (- 1075)"
    using round64_err_fin[OF s] q0 by simp
  have z: "pow2 (- 1075) \<le> pow2 (- 53)" by (rule pow2_mono) simp
  have "\<bar>s - (1 + x)\<bar> \<le> 4 * pow2 (- 53) * (1 + x)"
    by (rule rate_step_error[OF x0 _ _ _ z q0 qe se]) (simp_all add: pow2_def)
  hence e: "\<bar>s - (1 + x)\<bar> \<le> pow2 (- 51) * (1 + x)" using pow2_consts(1) by simp
  have "float_of_int n = Inr (Fin (of_int n))" using n by (intro float_of_int_small) simp
  hence "float_div (Fin r) (PyInt n) = Inr (Fin q)"
    using q(1) n(1) by (simp add: float_div_def x_def)
  thus ?thesis using s s1 sm e unfolding x_def by auto
qed











subsection \<open>The error of compound interest\<close>

lemma total_periods:
  assumes n: "0 < n" "n \<le> 2 ^ 20" and y: "0 \<le> y" "of_int n * y \<le> 2 ^ 20"
    and yrs: "years = PyFloat (Fin y) \<or> years = PyInt k \<and> y = of_int k"
  shows "\<exists>tp t. int_mul n years = Inr tp \<and> \<not> num_lt0 years
           \<and> (\<forall>s. float_pow (Fin s) tp = fpow (Fin s) (Fin t)) \<and> 0 \<le> t
           \<and> \<bar>t - of_int n * y\<bar> \<le> pow2 (- 53) * (of_int n * y) + pow2 (- 1075)"
  using yrs
proof
  assume f: "years = PyFloat (Fin y)"
  define T where "T = of_int n * y"
  have T0: "0 \<le> T" unfolding T_def using n(1) y(1) by simp
  have "(2::real) ^ 20 \<le> pow2 1023" using pow2_mono[of 20 1023] by (simp add: pow2_def)
  hence "\<bar>T\<bar> \<le> max_double" using T0 y(2) max_double_ge unfolding T_def by linarith
  from round64_err[OF this] obtain t where t: "round64 T = Fin t"
    "\<bar>t - T\<bar> \<le> pow2 (- 53) * \<bar>T\<bar> + pow2 (- 1075)" by blast
  have t0: "0 \<le> t" using round64_nonneg[OF T0] t(1) by simp
  have "float_of_int n = Inr (Fin (of_int n))" using n by (intro float_of_int_small) simp
  hence "int_mul n years = Inr (PyFloat (Fin t))" using t(1) f by (simp add: T_def)
  moreover have "\<forall>s. float_pow (Fin s) (PyFloat (Fin t)) = fpow (Fin s) (Fin t)"
    by (simp add: float_pow_def del: fpow.simps)
  moreover have "\<not> num_lt0 years" using f y(1) by simp
  ultimately show ?thesis using t0 t(2) T0 unfolding T_def by (auto simp del: fpow.simps)
next
  assume i: "years = PyInt k \<and> y = of_int k"
  hence k0: "0 \<le> k" using y(1) by simp
  have "real_of_int (n * k) \<le> real_of_int (2 ^ 20)" using y(2) i by simp
  hence "n * k \<le> 2 ^ 20" by (rule of_int_le_iff[THEN iffD1])
  moreover have "0 \<le> n * k" using n(1) k0 by simp
  ultimately have "float_of_int (n * k) = Inr (Fin (of_int (n * k)))"
    by (intro float_of_int_small) simp
  hence "\<forall>s. float_pow (Fin s) (PyInt (n * k)) = fpow (Fin s) (Fin (of_int n * y))"
    using i by (simp add: float_pow_def del: fpow.simps)
  moreover have "int_mul n years = Inr (PyInt (n * k))" using i by simp
  moreover have "\<not> num_lt0 years" using i k0 by simp
  moreover have "0 \<le> of_int n * y" using n(1) y(1) by simp
  ultimately show ?thesis by (auto simp del: fpow.simps)
qed

lemma ln_pow2_bound:
  assumes "0 < v" "v \<le> pow2 e" "0 \<le> e"
  shows "ln v \<le> of_int e * (3 / 4)"
proof -
  have "ln v \<le> ln (pow2 e)" using assms(1,2) by (subst ln_le_cancel_iff) simp_all
  also have "\<dots> = of_int e * ln 2" by (simp add: pow2_powr ln_powr)
  also have "\<dots> \<le> of_int e * (3 / 4)"
    using ln2_le_three_quarters assms(3) by (intro mult_left_mono) simp_all
  finally show ?thesis .
qed

lemma exponent_error:
  assumes b: "1 \<le> b" "b \<le> pow2 1024" and T: "0 \<le> T" and E: "b powr T \<le> pow2 900"
    and t: "\<bar>t - T\<bar> \<le> pow2 (- 53) * T + pow2 (- 1075)"
  shows "\<bar>t - T\<bar> * ln b \<le> pow2 (- 43)"
proof -
  have lb0: "0 \<le> ln b" using b(1) by simp
  have lb: "ln b \<le> 768" using ln_pow2_bound[of b 1024] b by simp
  have "T * ln b = ln (b powr T)" using b(1) by (simp add: ln_powr)
  also have "\<dots> \<le> 675" using ln_pow2_bound[of "b powr T" 900] E b(1) by simp
  finally have lE: "T * ln b \<le> 675" .
  have "\<bar>t - T\<bar> * ln b \<le> (pow2 (- 53) * T + pow2 (- 1075)) * ln b"
    using t lb0 by (rule mult_right_mono)
  also have "\<dots> = pow2 (- 53) * (T * ln b) + pow2 (- 1075) * ln b" by (simp add: algebra_simps)
  also have "\<dots> \<le> pow2 (- 53) * 675 + pow2 (- 1075) * 768"
    using lE lb by (intro add_mono mult_left_mono) simp_all
  finally have 1: "\<bar>t - T\<bar> * ln b \<le> pow2 (- 53) * 675 + pow2 (- 1075) * 768" .
  have "pow2 (- 1075) * 768 \<le> pow2 (- 1075) * pow2 10" by (simp add: pow2_def[of 10])
  also have "\<dots> = pow2 (- 1065)" using pow2_add[of "- 1075" 10] by simp
  also have "\<dots> \<le> pow2 (- 53)" by (rule pow2_mono) simp
  finally have "pow2 (- 53) * 675 + pow2 (- 1075) * 768 \<le> pow2 (- 53) * 1024"
    using pow2_nonneg[of "- 53"] by linarith
  also have "\<dots> = pow2 (- 43)" using pow2_add[of "- 53" 10] by (simp add: pow2_def[of 10])
  finally show ?thesis using 1 by linarith
qed

lemma compound_interest_error:
  assumes x: "0 \<le> x" "x \<le> pow2 100"
    and r: "0 \<le> r" "r \<le> max_double"
    and n: "0 < n" "n \<le> 2 ^ 20"
    and yrs: "years = PyFloat (Fin y) \<or> years = PyInt k \<and> y = of_int k"
    and y: "0 \<le> y" "of_int n * y \<le> 2 ^ 20"
    and g: "(1 + r / of_int n) powr (of_int n * y) \<le> pow2 900"
  shows "\<exists>v. compound_interest (Fin x) (Fin r) years n = Inr (Fin v)
           \<and> \<bar>v - x * (1 + r / of_int n) powr (of_int n * y)\<bar>
               \<le> (of_int n * y * pow2 (- 49) + pow2 (- 41))
                    * (x * (1 + r / of_int n) powr (of_int n * y)) + pow2 (- 1075)"
proof -
  define b where "b = 1 + r / of_int n"
  define T where "T = of_int n * y"
  define E where "E = b powr T"
  have n1: "1 \<le> (of_int n :: real)" using n(1) by simp
  have b1: "1 \<le> b" unfolding b_def using r(1) n(1) by simp
  have T0: "0 \<le> T" unfolding T_def using n(1) y(1) by simp
  have T20: "T \<le> 2 ^ 20" unfolding T_def by (rule y(2))
  have E1: "1 \<le> E" unfolding E_def using b1 T0 by (simp add: ge_one_powr_ge_zero)
  have E0: "0 \<le> E" using E1 by simp
  have E9: "b powr T \<le> pow2 900" unfolding b_def T_def by (rule g)
  have n53: "n < 2 ^ 53" using n(2) by simp
  from rate_per_period[OF r n(1) n53] obtain q s
    where q: "float_div (Fin r) (PyInt n) = Inr (Fin q)" and s: "fadd (Fin 1) (Fin q) = Fin s"
      and s1: "1 \<le> s" and se: "\<bar>s - b\<bar> \<le> pow2 (- 51) * b" unfolding b_def by auto
  from total_periods[OF n y yrs] obtain tp t
    where tp: "int_mul n years = Inr tp" and nl: "\<not> num_lt0 years"
      and fp: "\<forall>s. float_pow (Fin s) tp = fpow (Fin s) (Fin t)" and t0: "0 \<le> t"
      and te: "\<bar>t - T\<bar> \<le> pow2 (- 53) * T + pow2 (- 1075)" unfolding T_def by auto
  have "r / of_int n \<le> r" using r(1) n1 by (simp add: field_simps mult_le_cancel_left1)
  moreover have "1 + max_double < pow2 1024"
    using pow2_strict_mono[of 0 971] by (simp add: max_double_def)
  ultimately have bmax: "b \<le> pow2 1024" unfolding b_def using r(2) by linarith
  have k: "\<bar>t - T\<bar> * ln b \<le> pow2 (- 43)" by (rule exponent_error[OF b1 bmax T0 E9 te])
  have "pow2 (- 53) * T \<le> pow2 (- 53) * 2 ^ 20" using T20 by (intro mult_left_mono) simp_all
  also have "\<dots> = pow2 (- 33)" using pow2_add[of "- 53" 20] by (simp add: pow2_def[of 20])
  finally have "pow2 (- 53) * T + pow2 (- 1075) \<le> pow2 (- 33) + pow2 (- 33)"
    using pow2_mono[of "- 1075" "- 33"] by simp
  also have "\<dots> = pow2 (- 32)" by (simp add: pow2_def)
  finally have dt: "\<bar>t - T\<bar> \<le> pow2 (- 32)" using te by linarith
  have tu: "t \<le> 2 ^ 20 + 1"
  proof -
    have "pow2 (- 32) \<le> 1" using pow2_mono[of "- 32" 0] by simp
    thus ?thesis using dt T20 by linarith
  qed
  have d: "0 \<le> pow2 (- 51)" "pow2 (- 51) \<le> 1 / 2" by (simp_all add: pow2_def)
  have "pow2 (- 51) * t \<le> pow2 (- 51) * (2 ^ 20 + 1)" using tu by (intro mult_left_mono) simp_all
  hence "2 * pow2 (- 51) * t + pow2 (- 43) \<le> 2 * (pow2 (- 51) * (2 ^ 20 + 1)) + pow2 (- 43)"
    by simp
  also have "\<dots> \<le> 1 / 4" by (simp add: pow2_def)
  finally have D4: "2 * pow2 (- 51) * t + pow2 (- 43) \<le> 1 / 4" .
  hence D: "2 * pow2 (- 51) * t + pow2 (- 43) \<le> 1 / 2" by simp
  have sp1: "1 \<le> s powr t" using s1 t0 by (simp add: ge_one_powr_ge_zero)
  have h0: "0 \<le> pow2 (- 52)" by simp
  have "s powr t \<le> 2 * b powr T"
    by (rule rounded_power_error(1)[OF b1 se d t0 k D, of "s powr t" 0]) simp_all
  also have "\<dots> \<le> 2 * pow2 900" using E9 by simp
  also have "\<dots> = pow2 901" using pow2_add[of 1 900] by (simp add: pow2_def[of 1])
  also have "\<dots> \<le> max_double" using pow2_mono[of 901 1023] max_double_ge by simp
  finally have sp2: "s powr t \<le> max_double" .
  from round64_rel[OF sp1 sp2] obtain p where p: "round64 (s powr t) = Fin p" "1 \<le> p"
    "\<bar>p - s powr t\<bar> \<le> pow2 (- 52) * s powr t" by blast
  define a where "a = 2 * (2 * pow2 (- 51) * t + pow2 (- 43)) + 2 * pow2 (- 52)"
  have pe: "\<bar>p - E\<bar> \<le> a * E"
    unfolding a_def E_def by (rule rounded_power_error(2)[OF b1 se d t0 k D p(3) h0])
  have a0: "0 \<le> a" unfolding a_def using t0 by simp
  have "2 * pow2 (- 52) \<le> 1 / 2" by (simp add: pow2_def)
  moreover have "2 * (2 * pow2 (- 51) * t + pow2 (- 43)) \<le> 2 * (1 / 4)"
    using D4 by (rule mult_left_mono) simp
  ultimately have a1: "a \<le> 1" unfolding a_def by simp
  have "a * E \<le> 1 * E" using a1 E0 by (intro mult_right_mono) simp_all
  hence "p \<le> 2 * E" using pe by linarith
  hence "p \<le> pow2 901"
    using E9 pow2_add[of 1 900] unfolding E_def by (simp add: pow2_def[of 1])
  hence "x * p \<le> pow2 100 * pow2 901" using x p(2) by (intro mult_mono) simp_all
  also have "\<dots> = pow2 1001" using pow2_add[of 100 901] by simp
  also have "\<dots> \<le> max_double" using pow2_mono[of 1001 1023] max_double_ge by simp
  finally have "\<bar>x * p\<bar> \<le> max_double" using x(1) p(2) by simp
  from round64_err[OF this] obtain v where v: "round64 (x * p) = Fin v"
    "\<bar>v - x * p\<bar> \<le> pow2 (- 53) * \<bar>x * p\<bar> + pow2 (- 1075)" by blast
  have "\<bar>x * p\<bar> = x * p" using x(1) p(2) by simp
  hence ve: "\<bar>v - x * p\<bar> \<le> pow2 (- 53) * (x * p) + pow2 (- 1075)" using v(2) by simp
  have u0: "0 \<le> pow2 (- 53)" by simp
  have 1: "\<bar>v - x * E\<bar> \<le> (a + 2 * pow2 (- 53)) * (x * E) + pow2 (- 1075)"
    by (rule times_principal_error[OF x(1) E0 pe a0 a1 ve u0])
  have "t \<le> T + pow2 (- 32)" using dt by linarith
  hence "pow2 (- 49) * t \<le> pow2 (- 49) * (T + pow2 (- 32))"
    by (intro mult_left_mono) simp_all
  moreover have "a + 2 * pow2 (- 53)
      = pow2 (- 49) * t + (2 * pow2 (- 43) + 2 * pow2 (- 52) + 2 * pow2 (- 53))"
    unfolding a_def using pow2_add[of 2 "- 51"] by (simp add: pow2_def[of 2] algebra_simps)
  moreover have "pow2 (- 49) * pow2 (- 32) + (2 * pow2 (- 43) + 2 * pow2 (- 52) + 2 * pow2 (- 53))
      \<le> pow2 (- 41)" by (simp add: pow2_def)
  ultimately have "a + 2 * pow2 (- 53) \<le> T * pow2 (- 49) + pow2 (- 41)"
    by (simp add: algebra_simps)
  moreover have "0 \<le> x * E" using x(1) E0 by simp
  ultimately have "(a + 2 * pow2 (- 53)) * (x * E) \<le> (T * pow2 (- 49) + pow2 (- 41)) * (x * E)"
    by (rule mult_right_mono)
  hence e: "\<bar>v - x * E\<bar> \<le> (T * pow2 (- 49) + pow2 (- 41)) * (x * E) + pow2 (- 1075)"
    using 1 by linarith
  have "fpow (Fin s) (Fin t) = Inr (Fin p)"
    using s1 p(1) by (simp add: fpow_pos del: fpow.simps)
  hence "float_pow (Fin s) tp = Inr (Fin p)" using fp by simp
  hence "compound_interest (Fin x) (Fin r) years n = Inr (Fin v)"
    using x(1) r(1) nl n(1) q tp s v(1)
    by (simp add: compound_interest_def del: fpow.simps fadd.simps)
  thus ?thesis using e unfolding E_def b_def T_def by blast
qed

lemma float_of_int_2_60: "float_of_int (2 ^ 60) = Inr (Fin (2 ^ 60))"
proof -
  have "round64 (2 ^ 60) = Fin (2 ^ 60)"
    by (subst round64_eval[of 60]) (simp_all add: pow2_def quantize_def clip64_def rne_def)
  thus ?thesis by (simp add: float_of_int_def)
qed

lemma compound_interest_2_60:
  "compound_interest (Fin 1000) (Fin 1) (PyInt 1) (2 ^ 60) = Inr (Fin 1000)"
proof -
  have q: "float_div (Fin 1) (PyInt (2 ^ 60)) = Inr (Fin (1 / 2 ^ 60))"
    using float_of_int_2_60 is_double_tiny by (simp add: float_div_def is_double_def)
  have s: "fadd (Fin 1) (Fin (1 / 2 ^ 60)) = Fin 1" using tiny_absorbed by simp
  have p: "float_pow (Fin 1) (PyInt (2 ^ 60)) = Inr (Fin 1)"
    using float_of_int_2_60 by (simp add: float_pow_def del: fpow.simps)
  have m: "fmul (Fin 1000) (Fin 1) = Fin 1000" using is_double_1000 by (simp add: is_double_def)
  have t: "int_mul (2 ^ 60) (PyInt 1) = Inr (PyInt (2 ^ 60))" by simp
  show ?thesis
    unfolding compound_interest_def
    by (simp only: q t s p m and_then_Inr flt.simps num_lt0.simps) simp
qed

lemma compounding_doubles:
  assumes "0 < n"
  shows "(2000::real) \<le> 1000 * (1 + 1 / of_int n) powr (of_int n * 1)"
proof -
  define N where "N = nat n"
  have N: "of_int n = (of_nat N :: real)" "0 < N" using assms by (simp_all add: N_def)
  have "(0::real) \<le> 1 / of_nat N" by simp
  hence "(- 1 :: real) \<le> 1 / of_nat N" by linarith
  hence "1 + of_nat N * (1 / of_nat N) \<le> (1 + 1 / of_nat N :: real) ^ N"
    by (rule Bernoulli_inequality)
  hence "2 \<le> (1 + 1 / of_nat N :: real) ^ N" using N(2) by simp
  also have "\<dots> = (1 + 1 / of_nat N) powr (of_nat N)"
    by (rule powr_realpow[symmetric]) (simp add: add_pos_nonneg)
  finally show ?thesis unfolding N(1) by simp
qed

lemma compound_interest_half_twice:
  "compound_interest (Fin 1000) (Fin (1 / 2)) (PyInt 2) 2 = Inr (Fin (78125 / 32))"
proof -
  have "round64 (1 / 4) = Fin (1 / 4)"
    by (subst round64_eval[of "- 2"]) (simp_all add: pow2_def quantize_def clip64_def rne_def)
  hence q: "float_div (Fin (1 / 2)) (PyInt 2) = Inr (Fin (1 / 4))"
    using float_of_int_small[of 2] by (simp add: float_div_def)
  have "round64 (5 / 4) = Fin (5 / 4)"
    by (subst round64_eval[of 0]) (simp_all add: pow2_def quantize_def clip64_def rne_def)
  hence s: "fadd (Fin 1) (Fin (1 / 4)) = Fin (5 / 4)" by simp
  have r625: "round64 (625 / 256) = Fin (625 / 256)"
    by (subst round64_eval[of 1]) (simp_all add: pow2_def quantize_def clip64_def rne_def)
  have e625: "((5 / 4) powr 4 :: real) = 625 / 256" by (simp add: power_divide)
  have "fpow (Fin (5 / 4)) (Fin 4) = finite_or_overflow (round64 ((5 / 4) powr 4))"
    by (rule fpow_pos) simp
  hence "fpow (Fin (5 / 4)) (Fin 4) = Inr (Fin (625 / 256))"
    by (simp only: e625 r625 finite_or_overflow_Fin)
  hence p: "float_pow (Fin (5 / 4)) (PyInt 4) = Inr (Fin (625 / 256))"
    using float_of_int_small[of 4] by (simp add: float_pow_def del: fpow.simps)
  have "round64 (78125 / 32) = Fin (78125 / 32)"
    by (subst round64_eval[of 11]) (simp_all add: pow2_def quantize_def clip64_def rne_def)
  hence m: "fmul (Fin 1000) (Fin (625 / 256)) = Fin (78125 / 32)" by simp
  have t: "int_mul 2 (PyInt 2) = Inr (PyInt 4)" by simp
  show ?thesis
    unfolding compound_interest_def
    by (simp only: q t s p m and_then_Inr flt.simps num_lt0.simps) simp
qed

section \<open>The alias\<close>

text \<open>
  C9. \<open>future_value\<close> is \<open>compound_interest\<close>: on every input, of any value, the two
  give the same result, the same float or the same failure.
\<close>

theorem future_value_is_compound_interest:
  "future_value principal' annual_rate years compounding_frequency =
   compound_interest principal' annual_rate years compounding_frequency"
  by (simp add: future_value_def)

section \<open>The effective annual rate at one period a year\<close>

text \<open>
  C7, as stated: \<open>effective_annual_rate(r, 1)\<close> returns exactly \<open>r\<close> for every
  \<open>r \<ge> 0\<close>. It does not: at \<open>r = 0.1\<close>, the float nearest one tenth, the function
  computes \<open>(1 + 0.1) ** 1 - 1\<close>; the sum is rounded to 53 bits and the difference
  comes back as \<open>0.10000000000000009\<close>, the float \<open>225179981368525 / 2^51\<close>.
\<close>

theorem effective_annual_rate_one_not_exact:
  "fle (Fin 0) (round64 (1 / 10))
   \<and> effective_annual_rate (round64 (1 / 10)) 1 = Inr (Fin (225179981368525 / 2251799813685248))
   \<and> effective_annual_rate (round64 (1 / 10)) 1 \<noteq> Inr (round64 (1 / 10))"
  using is_double_tenth is_double_one_plus_tenth round64_one_plus_tenth
    round64_one_plus_tenth_minus_one
  by (simp add: round64_tenth effective_annual_rate_def float_div_def float_pow_def fsub_def
      is_double_def)

text \<open>
  C7, amended: for every float \<open>r\<close> with \<open>0 \<le> r \<le> 2^1023\<close>,
  \<open>effective_annual_rate(r, 1)\<close> returns a float within \<open>(1 + r) * 2^-51\<close> of \<open>r\<close>:
  equal to \<open>r\<close> up to the rounding of one addition and one subtraction, not exactly.
\<close>

theorem effective_annual_rate_one_bound:
  assumes d: "is_double r" and r0: "0 \<le> r" and rb: "r \<le> pow2 1023"
  shows "\<exists>v. effective_annual_rate (Fin r) 1 = Inr (Fin v)
             \<and> \<bar>v - r\<bar> \<le> pow2 (- 51) * (1 + r)"
proof -
  define a where "a = pow2 (- 53)"
  define b where "b = pow2 (- 1075)"
  have a: "0 < a" "a \<le> 1" "3 * b \<le> a" "0 < b" "pow2 (- 51) = 4 * a"
    using pow2_consts by (simp_all add: a_def b_def)
  have q: "float_div (Fin r) (PyInt 1) = Inr (Fin r)"
    using d by (simp add: float_div_def is_double_def)
  have "\<bar>1 + r\<bar> \<le> max_double" using r0 rb pow2_1023_le_max by simp
  from round64_err[OF this] obtain s where s: "round64 (1 + r) = Fin s"
    and se: "\<bar>s - (1 + r)\<bar> \<le> a * (1 + r) + b" and sm: "\<bar>s\<bar> \<le> max_double"
    using r0 unfolding a_def b_def by auto
  have s1: "1 \<le> s" using round64_ge_pow2[of 0 "1 + r" s] s r0 by simp
  have ds: "is_double s" using s by (rule round64_idem)
  have p: "float_pow (Fin s) (PyInt 1) = Inr (Fin s)"
    using ds s1 by (cases "s = 1") (simp_all add: float_pow_def is_double_def)
  have "\<bar>s - 1\<bar> \<le> max_double" using s1 sm by simp
  from round64_err[OF this] obtain v where v: "round64 (s - 1) = Fin v"
    and ve: "\<bar>v - (s - 1)\<bar> \<le> a * (s - 1) + b"
    using s1 unfolding a_def b_def by auto
  have e: "effective_annual_rate (Fin r) 1 = Inr (Fin v)"
    using q s p v r0 by (simp add: effective_annual_rate_def fsub_def)
  have "s - 1 \<le> r + a * (1 + r) + b" using se by linarith
  hence "a * (s - 1) \<le> a * (r + a * (1 + r) + b)" using a(1) by (intro mult_left_mono) simp_all
  also have "\<dots> = a * r + a * a * (1 + r) + a * b" by (simp add: algebra_simps)
  also have "\<dots> \<le> a * r + a * (1 + r) + b"
  proof -
    have "a * a * (1 + r) \<le> a * (1 + r)"
      using a(1,2) r0 by (intro mult_right_mono) (simp_all add: mult_le_cancel_left1)
    moreover have "a * b \<le> b" using a(2,4) by (simp add: mult_le_cancel_right1)
    ultimately show ?thesis by linarith
  qed
  finally have "a * (s - 1) \<le> a * r + a * (1 + r) + b" .
  moreover have "0 \<le> a * r" using a(1) r0 by simp
  ultimately have "\<bar>v - r\<bar> \<le> 4 * a * (1 + r)"
    using ve se a(3,4) r0 by (simp add: algebra_simps)
  thus ?thesis using e a(5) by auto
qed

theorem effective_annual_rate_one_bound_witness:
  "is_double (3602879701896397 / 72057594037927936)
   \<and> (0::real) \<le> 3602879701896397 / 72057594037927936
   \<and> 3602879701896397 / 72057594037927936 \<le> pow2 1023
   \<and> (\<exists>v. effective_annual_rate (Fin (3602879701896397 / 72057594037927936)) 1 = Inr (Fin v)
          \<and> \<bar>v - 3602879701896397 / 72057594037927936\<bar>
              \<le> pow2 (- 51) * (1 + 3602879701896397 / 72057594037927936))"
proof -
  have b: "3602879701896397 / 72057594037927936 \<le> pow2 1023"
    using pow2_mono[of 0 1023] by simp
  show ?thesis
    using effective_annual_rate_one_bound[OF is_double_twentieth _ b] is_double_twentieth b
    by simp
qed

section \<open>Zero rate, zero years\<close>

text \<open>
  C4, as stated: with \<open>annual_rate = 0\<close>, or with \<open>years = 0\<close>, \<open>compound_interest\<close>
  returns exactly the principal for every valid input. It does not when an integer
  argument is beyond the range of a float: \<open>years\<close> may be an \<open>int\<close>, the number of
  periods \<open>compounding_frequency * years\<close> is then an \<open>int\<close>, and \<open>**\<close> fails to
  convert it. \<open>compound_interest(1000.0, 0.0, 2**1024)\<close> raises \<open>OverflowError\<close>.
\<close>

theorem compound_interest_zero_rate_huge_years:
  "wf_float (Fin 1000) \<and> fle (Fin 0) (Fin 1000) \<and> \<not> num_lt0 (PyInt (2 ^ 1024))
   \<and> compound_interest (Fin 1000) (Fin 0) (PyInt (2 ^ 1024)) 1 = Inl OverflowError
   \<and> compound_interest (Fin 1000) (Fin 0) (PyInt (2 ^ 1024)) 1 \<noteq> Inr (Fin 1000)"
  using is_double_1000 float_of_int_overflow
  by (simp add: compound_interest_def float_div_def float_pow_def del: fpow.simps)

text \<open>
  C4, amended: for every float \<open>P \<ge> 0\<close> and every \<open>compounding_frequency > 0\<close> that
  converts to a float, \<open>compound_interest\<close> returns exactly \<open>P\<close>
  \<^item> at \<open>annual_rate = 0\<close>, for every float \<open>years \<ge> 0\<close> and for every int
    \<open>years \<ge> 0\<close> such that \<open>compounding_frequency * years\<close> converts to a float;
  \<^item> at \<open>years = 0\<close> (the int or the float), for every \<open>annual_rate \<ge> 0\<close>.
\<close>

theorem compound_interest_zero_rate_or_years:
  assumes "wf_float P" and "fle (Fin 0) P"
    and "0 < n" and "\<not> isl (float_of_int n)"
  shows "(\<forall>k. 0 \<le> k \<and> \<not> isl (float_of_int (n * k))
            \<longrightarrow> compound_interest P (Fin 0) (PyInt k) n = Inr P)
       \<and> (\<forall>y. fle (Fin 0) y \<longrightarrow> compound_interest P (Fin 0) (PyFloat y) n = Inr P)
       \<and> (\<forall>rate. fle (Fin 0) rate
            \<longrightarrow> compound_interest P rate (PyInt 0) n = Inr P
              \<and> compound_interest P rate (PyFloat (Fin 0)) n = Inr P)"
  using compound_interest_zero_rate_int[OF assms] compound_interest_zero_rate_float[OF assms]
    compound_interest_zero_years[OF assms]
  by blast

theorem compound_interest_zero_rate_or_years_witness:
  "wf_float (Fin 1000000) \<and> fle (Fin 0) (Fin 1000000) \<and> (0::int) < 12
   \<and> \<not> isl (float_of_int 12)
   \<and> compound_interest (Fin 1000000) (Fin 0) (PyInt 10) 12 = Inr (Fin 1000000)
   \<and> compound_interest (Fin 1000000) (Fin 0) (PyFloat (Fin 10)) 12 = Inr (Fin 1000000)
   \<and> compound_interest (Fin 1000000) (Fin (1 / 2)) (PyInt 0) 12 = Inr (Fin 1000000)
   \<and> compound_interest (Fin 1000000) (Fin (1 / 2)) (PyFloat (Fin 0)) 12 = Inr (Fin 1000000)"
proof -
  have w: "wf_float (Fin 1000000)" using is_double_million by simp
  have p: "fle (Fin 0) (Fin 1000000)" by simp
  have f: "\<not> isl (float_of_int 12)" by (simp add: float_of_int_small)
  have g: "\<not> isl (float_of_int (12 * 10))" by (simp add: float_of_int_small)
  from compound_interest_zero_rate_or_years[OF w p _ f] g w f
  show ?thesis by simp
qed

section \<open>Validation\<close>




section \<open>The compound interest formula\<close>

text \<open>
  C1, as stated: for every principal, rate and years \<open>\<ge> 0\<close> and every frequency \<open>> 0\<close>,
  \<open>compound_interest\<close> returns
  \<open>principal * (1 + annual_rate / compounding_frequency)^(compounding_frequency * years)\<close>.
  The function computes that expression in floats, and the rounding of the base is raised
  to the power of the number of periods. With \<open>2^60\<close> periods a year the quotient
  \<open>1 / 2^60\<close> is absorbed in \<open>1 + 1 / 2^60 = 1.0\<close>, and
  \<open>compound_interest(1000, 1.0, 1, 2^60)\<close> returns the principal \<open>1000\<close>, while the
  value of the formula is above \<open>2000\<close>.
\<close>

theorem compound_interest_many_periods:
  "\<not> flt (Fin 1000) (Fin 0) \<and> \<not> flt (Fin 1) (Fin 0) \<and> \<not> num_lt0 (PyInt 1) \<and> (0::int) < 2 ^ 60
   \<and> compound_interest (Fin 1000) (Fin 1) (PyInt 1) (2 ^ 60) = Inr (Fin 1000)
   \<and> (2000::real) \<le> 1000 * (1 + 1 / of_int (2 ^ 60)) powr (of_int (2 ^ 60) * 1)"
proof (intro conjI)
  show "compound_interest (Fin 1000) (Fin 1) (PyInt 1) (2 ^ 60) = Inr (Fin 1000)"
    by (rule compound_interest_2_60)
  show "(2000::real) \<le> 1000 * (1 + 1 / of_int (2 ^ 60)) powr (of_int (2 ^ 60) * 1)"
    by (rule compounding_doubles) simp
qed simp_all

text \<open>
  C1, amended: for every principal \<open>0 \<le> x \<le> 2^100\<close>, every float rate \<open>r \<ge> 0\<close>, every
  frequency \<open>0 < n \<le> 2^20\<close> and every years \<open>y \<ge> 0\<close> (an int or a float) with at most
  \<open>2^20\<close> periods \<open>n * y\<close> and a growth factor \<open>(1 + r/n)^(n * y)\<close> of at most \<open>2^900\<close>,
  \<open>compound_interest\<close> returns a float within the relative error
  \<open>n * y * 2^-49 + 2^-41\<close> (and \<open>2^-1075\<close>, for a result in the subnormal range) of
  \<open>x * (1 + r/n)^(n * y)\<close>. And \<open>compound_interest(1000, 1.0, 1, 1)\<close> returns exactly
  \<open>2000\<close>: every step of it is exact.
\<close>

theorem compound_interest_close_to_formula:
  assumes "0 \<le> x" and "x \<le> pow2 100"
    and "wf_float (Fin r)" and "0 \<le> r"
    and "0 < n" and "n \<le> 2 ^ 20"
    and "years = PyFloat (Fin y) \<or> years = PyInt k \<and> y = of_int k"
    and "0 \<le> y" and "of_int n * y \<le> 2 ^ 20"
    and "(1 + r / of_int n) powr (of_int n * y) \<le> pow2 900"
  shows "(\<exists>v. compound_interest (Fin x) (Fin r) years n = Inr (Fin v)
            \<and> \<bar>v - x * (1 + r / of_int n) powr (of_int n * y)\<bar>
                \<le> (of_int n * y * pow2 (- 49) + pow2 (- 41))
                     * (x * (1 + r / of_int n) powr (of_int n * y)) + pow2 (- 1075))
         \<and> compound_interest (Fin 1000) (Fin 1) (PyInt 1) 1 = Inr (Fin 2000)
         \<and> compound_interest (Fin 1000) (Fin 1) (PyFloat (Fin 1)) 1 = Inr (Fin 2000)"
proof (intro conjI)
  have "r \<le> max_double" using double_le_max[of r] assms(3) by simp
  from compound_interest_error[OF assms(1,2,4) this assms(5-10)]
  show "\<exists>v. compound_interest (Fin x) (Fin r) years n = Inr (Fin v)
            \<and> \<bar>v - x * (1 + r / of_int n) powr (of_int n * y)\<bar>
                \<le> (of_int n * y * pow2 (- 49) + pow2 (- 41))
                     * (x * (1 + r / of_int n) powr (of_int n * y)) + pow2 (- 1075)" .
  show "compound_interest (Fin 1000) (Fin 1) (PyInt 1) 1 = Inr (Fin 2000)"
    using fpow_two_one round64_2000
    by (simp add: compound_interest_def float_div_def float_pow_def del: fpow.simps)
  show "compound_interest (Fin 1000) (Fin 1) (PyFloat (Fin 1)) 1 = Inr (Fin 2000)"
    using fpow_two_one round64_2000
    by (simp add: compound_interest_def float_div_def float_pow_def del: fpow.simps)
qed

theorem compound_interest_close_to_formula_witness:
  "(0::real) \<le> 1000 \<and> 1000 \<le> pow2 100
   \<and> wf_float (Fin (1 / 2)) \<and> (0::real) \<le> 1 / 2
   \<and> (0::int) < 2 \<and> (2::int) \<le> 2 ^ 20
   \<and> (PyInt 2 = PyFloat (Fin 2) \<or> PyInt 2 = PyInt 2 \<and> (2::real) = of_int 2)
   \<and> (0::real) \<le> 2 \<and> of_int 2 * (2::real) \<le> 2 ^ 20
   \<and> (1 + 1 / 2 / of_int 2 :: real) powr (of_int 2 * 2) \<le> pow2 900
   \<and> compound_interest (Fin 1000) (Fin (1 / 2)) (PyInt 2) 2 = Inr (Fin (78125 / 32))
   \<and> (\<exists>v. compound_interest (Fin 1000) (Fin (1 / 2)) (PyInt 2) 2 = Inr (Fin v)
          \<and> \<bar>v - 1000 * (1 + 1 / 2 / of_int 2) powr (of_int 2 * 2)\<bar>
              \<le> (of_int 2 * 2 * pow2 (- 49) + pow2 (- 41))
                   * (1000 * (1 + 1 / 2 / of_int 2) powr (of_int 2 * 2)) + pow2 (- 1075))"
proof -
  have h1: "(0::real) \<le> 1000" by simp
  have h2: "1000 \<le> pow2 100" using pow2_mono[of 10 100] by (simp add: pow2_def[of 10])
  have h3: "wf_float (Fin (1 / 2))" using round64_half by (simp add: is_double_def)
  have h4: "(0::real) \<le> 1 / 2" by simp
  have h5: "(0::int) < 2" by simp
  have h6: "(2::int) \<le> 2 ^ 20" by simp
  have h7: "PyInt 2 = PyFloat (Fin 2) \<or> PyInt 2 = PyInt 2 \<and> (2::real) = of_int 2" by simp
  have h8: "(0::real) \<le> 2" by simp
  have h9: "of_int 2 * (2::real) \<le> 2 ^ 20" by simp
  have "(1 + 1 / 2 / of_int 2 :: real) powr (of_int 2 * 2) = 625 / 256"
    by (simp add: power_divide)
  hence h10: "(1 + 1 / 2 / of_int 2 :: real) powr (of_int 2 * 2) \<le> pow2 900"
    using pow2_mono[of 2 900] by (simp add: pow2_def[of 2])
  note c = conjunct1[OF compound_interest_close_to_formula[OF h1 h2 h3 h4 h5 h6 h7 h8 h9 h10]]
  show ?thesis
    by (intro conjI h1 h2 h3 h4 h5 h6 h7 h8 h9 h10 c compound_interest_half_twice)
qed

section \<open>From the annual rate to the monthly rate\<close>

text \<open>
  C6, as stated: for every \<open>annual_rate \<ge> 0\<close>, \<open>annual_to_monthly_rate\<close> returns
  \<open>(1 + annual_rate)^(1/12) - 1\<close>. The function computes that expression in floats, so
  it returns the value only up to rounding: at \<open>annual_rate = 2^-53\<close> the sum
  \<open>1 + annual_rate\<close> rounds to \<open>1.0\<close> and the function returns \<open>0.0\<close>, while the twelfth
  root of \<open>1 + 2^-53\<close> is above \<open>1\<close>.
\<close>

theorem annual_to_monthly_rate_rounds_to_zero:
  "wf_float (Fin (1 / 2 ^ 53)) \<and> \<not> flt (Fin (1 / 2 ^ 53)) (Fin 0)
   \<and> annual_to_monthly_rate (Fin (1 / 2 ^ 53)) = Inr (Fin 0)
   \<and> 0 < (1 + 1 / 2 ^ 53 :: real) powr (1 / 12) - 1"
  using is_double_half_ulp annual_to_monthly_rate_half_ulp twelfth_root_bounds(1)[of "1 / 2 ^ 53"]
  by simp

text \<open>
  C6, amended: \<open>annual_to_monthly_rate\<close> rejects every \<open>annual_rate < 0\<close> with the
  input-validation failure and returns on every other float; for every
  \<open>0 \<le> annual_rate \<le> 2^1023\<close> the float it returns is within
  \<open>2^-47 * (1 + annual_rate)^(1/12)\<close> of \<open>(1 + annual_rate)^(1/12) - 1\<close>, a relative error
  of about \<open>7e-15\<close> on the twelfth root. At \<open>annual_rate = 0.05\<close> the result is
  \<open>0.0040741238\<close> to ten decimal places, which is not \<open>0.05 / 12 = 0.0041666...\<close>.
\<close>

theorem annual_to_monthly_rate_close_to_root:
  "(flt a (Fin 0) \<longrightarrow> annual_to_monthly_rate a = Inl (ValueError Annual_rate_nonneg))
   \<and> (wf_float a \<and> \<not> flt a (Fin 0) \<longrightarrow> (\<exists>v. annual_to_monthly_rate a = Inr v))
   \<and> (0 \<le> x \<and> x \<le> pow2 1023 \<longrightarrow>
        (\<exists>v. annual_to_monthly_rate (Fin x) = Inr (Fin v)
            \<and> \<bar>v - ((1 + x) powr (1 / 12) - 1)\<bar> \<le> pow2 (- 47) * (1 + x) powr (1 / 12)))
   \<and> close_to (1 / 10 ^ 10)
         (annual_to_monthly_rate (Fin (3602879701896397 / 72057594037927936)))
         (40741238 / 10 ^ 10)
   \<and> \<not> close_to (1 / 100000)
         (annual_to_monthly_rate (Fin (3602879701896397 / 72057594037927936)))
         (3602879701896397 / 72057594037927936 / 12)"
proof (intro conjI impI)
  assume "flt a (Fin 0)"
  thus "annual_to_monthly_rate a = Inl (ValueError Annual_rate_nonneg)"
    by (simp add: annual_to_monthly_rate_def)
next
  assume h: "wf_float a \<and> \<not> flt a (Fin 0)"
  let ?c = "6004799503160661 / 72057594037927936 :: real"
  have b: "\<not> flt (fadd (Fin 1) a) (Fin 1)" using h by (intro fadd_one_nonneg) simp
  have "wf_float (Fin 1)" using is_double_int[of 1] by simp
  hence w: "wf_float (fadd (Fin 1) a)" using h by (intro fadd_wf) simp_all
  from fpow_twelfth_returns[OF b w] obtain p
    where p: "fpow (fadd (Fin 1) a) (Fin ?c) = Inr p" by blast
  hence "annual_to_monthly_rate a = Inr (fsub p (Fin 1))"
    using h by (simp add: annual_to_monthly_rate_def int_truediv_1_12 del: fpow.simps)
  thus "\<exists>v. annual_to_monthly_rate a = Inr v" by blast
next
  assume "0 \<le> x \<and> x \<le> pow2 1023"
  thus "\<exists>v. annual_to_monthly_rate (Fin x) = Inr (Fin v)
      \<and> \<bar>v - ((1 + x) powr (1 / 12) - 1)\<bar> \<le> pow2 (- 47) * (1 + x) powr (1 / 12)"
    using annual_to_monthly_rate_error[of x] by blast
next
  from annual_to_monthly_rate_five_percent obtain v
    where v: "annual_to_monthly_rate (Fin (3602879701896397 / 72057594037927936)) = Inr (Fin v)"
      "40741237 / 10 ^ 10 \<le> v" "v \<le> 40741239 / 10 ^ 10" by blast
  have c1: "\<bar>v - 40741238 / 10 ^ 10\<bar> \<le> 1 / 10 ^ 10"
    using v(2,3) unfolding abs_le_iff by (simp add: field_simps)
  have c2: "\<not> \<bar>v - 3602879701896397 / 72057594037927936 / 12\<bar> \<le> 1 / 100000"
    using v(2,3) unfolding abs_le_iff by (simp add: field_simps)
  show "close_to (1 / 10 ^ 10)
         (annual_to_monthly_rate (Fin (3602879701896397 / 72057594037927936)))
         (40741238 / 10 ^ 10)"
    by (simp only: v(1) close_to_Inr_Fin c1)
  show "\<not> close_to (1 / 100000)
         (annual_to_monthly_rate (Fin (3602879701896397 / 72057594037927936)))
         (3602879701896397 / 72057594037927936 / 12)"
    by (simp only: v(1) close_to_Inr_Fin c2 not_False_eq_True)
qed

theorem annual_to_monthly_rate_close_to_root_witness:
  "flt (Fin (- 1 / 2)) (Fin 0)
   \<and> annual_to_monthly_rate (Fin (- 1 / 2)) = Inl (ValueError Annual_rate_nonneg)
   \<and> wf_float (Fin (3602879701896397 / 72057594037927936))
   \<and> \<not> flt (Fin (3602879701896397 / 72057594037927936)) (Fin 0)
   \<and> (\<exists>v. annual_to_monthly_rate (Fin (3602879701896397 / 72057594037927936)) = Inr v)
   \<and> (0::real) \<le> 3602879701896397 / 72057594037927936
   \<and> 3602879701896397 / 72057594037927936 \<le> pow2 1023
   \<and> (\<exists>v. annual_to_monthly_rate (Fin (3602879701896397 / 72057594037927936)) = Inr (Fin v)
          \<and> \<bar>v - ((1 + 3602879701896397 / 72057594037927936) powr (1 / 12) - 1)\<bar>
              \<le> pow2 (- 47) * (1 + 3602879701896397 / 72057594037927936) powr (1 / 12))"
proof -
  have le: "3602879701896397 / 72057594037927936 \<le> pow2 1023"
    using pow2_1023_ge_one by simp
  show ?thesis
    using annual_to_monthly_rate_close_to_root[of "Fin (- 1 / 2)" 0]
      annual_to_monthly_rate_close_to_root[of "Fin (3602879701896397 / 72057594037927936)"
        "3602879701896397 / 72057594037927936"]
      is_double_twentieth le
    by (simp del: fpow.simps)
qed

section \<open>The monthly rate against the twelfth of the annual rate\<close>

text \<open>
  C10, as stated: for every \<open>annual_rate > 0\<close> the result of \<open>annual_to_monthly_rate\<close>
  is strictly between \<open>0\<close> and \<open>annual_rate / 12\<close>. In floats both bounds fail for rates
  near the rounding unit. At \<open>annual_rate = 2^-60\<close> the sum \<open>1 + annual_rate\<close> rounds to
  \<open>1.0\<close> and the function returns \<open>0.0\<close>, which is not positive. At
  \<open>annual_rate = 7 * 2^-52\<close> the power rounds up to \<open>1 + 2^-52\<close> and the function
  returns \<open>2^-52\<close>, which is above \<open>annual_rate / 12\<close>, in exact arithmetic and as
  the float quotient.
\<close>

theorem annual_to_monthly_rate_tiny:
  "wf_float (Fin (1 / 2 ^ 60)) \<and> flt (Fin 0) (Fin (1 / 2 ^ 60))
   \<and> annual_to_monthly_rate (Fin (1 / 2 ^ 60)) = Inr (Fin 0)
   \<and> \<not> flt (Fin 0) (Fin 0)
   \<and> wf_float (Fin (7 / 2 ^ 52)) \<and> flt (Fin 0) (Fin (7 / 2 ^ 52))
   \<and> annual_to_monthly_rate (Fin (7 / 2 ^ 52)) = Inr (Fin (1 / 2 ^ 52))
   \<and> float_div (Fin (7 / 2 ^ 52)) (PyInt 12) = Inr (Fin (5254199565265579 / 2 ^ 105))
   \<and> \<not> flt (Fin (1 / 2 ^ 52)) (Fin (5254199565265579 / 2 ^ 105))
   \<and> \<not> (1 / 2 ^ 52 < (7 / 2 ^ 52 / 12 :: real))"
proof -
  have 1: "annual_to_monthly_rate (Fin (1 / 2 ^ 60)) = Inr (Fin 0)"
    using tiny_absorbed
    by (simp add: annual_to_monthly_rate_def int_truediv_1_12 fsub_def del: fpow.simps)
  have 2: "float_div (Fin (7 / 2 ^ 52)) (PyInt 12) = Inr (Fin (5254199565265579 / 2 ^ 105))"
    using round64_seven_ulps_twelfth float_of_int_small[of 12] by (simp add: float_div_def)
  show ?thesis
    using 1 2 is_double_tiny is_double_seven_ulps annual_to_monthly_rate_seven_ulps
    by (simp del: fpow.simps)
qed

text \<open>
  C10, amended: for every \<open>annual_rate\<close> from \<open>2^-18\<close> (about \<open>3.8e-6\<close>) to \<open>2^1023\<close>,
  \<open>annual_to_monthly_rate\<close> returns a float strictly between \<open>0\<close> and
  \<open>annual_rate / 12\<close>, the latter in exact arithmetic and as the float quotient; for
  every \<open>annual_rate\<close> with \<open>0 < annual_rate \<le> 2^1023\<close> the float it returns is at least
  \<open>0\<close> and at most \<open>annual_rate / 12 + 2^-47 * (1 + annual_rate / 12)\<close>.
\<close>

theorem annual_to_monthly_rate_between:
  "(pow2 (- 18) \<le> x \<and> x \<le> pow2 1023 \<longrightarrow>
      (\<exists>v q. annual_to_monthly_rate (Fin x) = Inr (Fin v)
            \<and> float_div (Fin x) (PyInt 12) = Inr (Fin q)
            \<and> 0 < v \<and> v < q \<and> v < x / 12))
   \<and> (0 < y \<and> y \<le> pow2 1023 \<longrightarrow>
      (\<exists>v. annual_to_monthly_rate (Fin y) = Inr (Fin v)
           \<and> 0 \<le> v \<and> v \<le> y / 12 + pow2 (- 47) * (1 + y / 12)))"
proof (intro conjI impI)
  assume "pow2 (- 18) \<le> x \<and> x \<le> pow2 1023"
  thus "\<exists>v q. annual_to_monthly_rate (Fin x) = Inr (Fin v)
            \<and> float_div (Fin x) (PyInt 12) = Inr (Fin q)
            \<and> 0 < v \<and> v < q \<and> v < x / 12"
    using annual_to_monthly_rate_below_twelfth[of x] by blast
next
  assume h: "0 < y \<and> y \<le> pow2 1023"
  define R where "R = (1 + y) powr (1 / 12)"
  from h annual_to_monthly_rate_error[of y] obtain v
    where v: "annual_to_monthly_rate (Fin y) = Inr (Fin v)" "0 \<le> v"
      "\<bar>v - (R - 1)\<bar> \<le> pow2 (- 47) * R" unfolding R_def by auto
  have "R - 1 < y / 12" unfolding R_def using h twelfth_root_bounds(2)[of y] by simp
  hence R: "R \<le> 1 + y / 12" by simp
  have "pow2 (- 47) * R \<le> pow2 (- 47) * (1 + y / 12)"
    using R by (intro mult_left_mono) simp_all
  hence "v \<le> y / 12 + pow2 (- 47) * (1 + y / 12)"
    using v(3) R unfolding abs_le_iff by linarith
  thus "\<exists>v. annual_to_monthly_rate (Fin y) = Inr (Fin v)
           \<and> 0 \<le> v \<and> v \<le> y / 12 + pow2 (- 47) * (1 + y / 12)"
    using v(1,2) by blast
qed

theorem annual_to_monthly_rate_between_witness:
  "pow2 (- 18) \<le> 5764607523034235 / 576460752303423488
   \<and> 5764607523034235 / 576460752303423488 \<le> pow2 1023
   \<and> (\<exists>v q. annual_to_monthly_rate (Fin (5764607523034235 / 576460752303423488)) = Inr (Fin v)
          \<and> float_div (Fin (5764607523034235 / 576460752303423488)) (PyInt 12) = Inr (Fin q)
          \<and> 0 < v \<and> v < q \<and> v < 5764607523034235 / 576460752303423488 / 12)
   \<and> (0::real) < 1 / 2 ^ 60 \<and> 1 / 2 ^ 60 \<le> pow2 1023
   \<and> (\<exists>v. annual_to_monthly_rate (Fin (1 / 2 ^ 60)) = Inr (Fin v)
          \<and> 0 \<le> v \<and> v \<le> 1 / 2 ^ 60 / 12 + pow2 (- 47) * (1 + 1 / 2 ^ 60 / 12))"
proof -
  have 1: "pow2 (- 18) \<le> 5764607523034235 / 576460752303423488" by (simp add: pow2_def)
  have 2: "5764607523034235 / 576460752303423488 \<le> pow2 1023"
    using pow2_1023_ge_one by simp
  have 3: "1 / 2 ^ 60 \<le> pow2 1023" using pow2_1023_ge_one by simp
  show ?thesis
    using annual_to_monthly_rate_between[of "5764607523034235 / 576460752303423488" "1 / 2 ^ 60"]
      1 2 3
    by (simp del: fpow.simps)
qed

section \<open>The effective annual rate and the frequency\<close>




section \<open>Present value after compound interest\<close>

text \<open>
  C2, as stated: for every valid input, \<open>present_value\<close> applied to the result of
  \<open>compound_interest\<close> gives the principal back within \<open>1e-6\<close>. It does not for a large
  principal, whose floats are further apart than that: for \<open>100000000000.1\<close> at 50 % over
  one year, \<open>compound_interest\<close> returns \<open>150000000000.15002\<close> and \<open>present_value\<close> of it
  returns \<open>100000000000.10002\<close>, which is \<open>1.5e-5\<close> above the principal.
\<close>

theorem present_value_round_trip_off:
  "wf_float (Fin (3276800000003277 / 32768))
   \<and> \<not> flt (Fin (3276800000003277 / 32768)) (Fin 0)
   \<and> compound_interest (Fin (3276800000003277 / 32768)) (Fin (1 / 2)) (PyInt 1) 1
        = Inr (Fin (1228800000001229 / 8192))
   \<and> present_value (Fin (1228800000001229 / 8192)) (Fin (1 / 2)) (PyInt 1) 1
        = Inr (Fin (6553600000006555 / 65536))
   \<and> \<not> close_to (1 / 1000000)
         (present_value (Fin (1228800000001229 / 8192)) (Fin (1 / 2)) (PyInt 1) 1)
         (3276800000003277 / 32768)"
proof -
  have c: "compound_interest (Fin (3276800000003277 / 32768)) (Fin (1 / 2)) (PyInt 1) 1
        = Inr (Fin (1228800000001229 / 8192))"
    using round64_three_halves round64_half fpow_three_halves_one hundred_billion_grown
    by (simp add: compound_interest_def float_div_def float_pow_def del: fpow.simps)
  have p: "present_value (Fin (1228800000001229 / 8192)) (Fin (1 / 2)) (PyInt 1) 1
        = Inr (Fin (6553600000006555 / 65536))"
    using round64_three_halves round64_half fpow_three_halves_one hundred_billion_discounted
    by (simp add: present_value_def float_div_def float_pow_def del: fpow.simps)
  show ?thesis using c p is_double_hundred_billion by simp
qed

text \<open>
  C2, amended: for every float principal \<open>x \<ge> 0\<close> and every rate, years and frequency that
  pass the validation, if \<open>compound_interest\<close> returns a finite float then \<open>present_value\<close>
  of that float, at the same rate, years and frequency, returns a float within
  \<open>x * 2^-51 + 2^-1073\<close> of \<open>x\<close>: a relative tolerance of about \<open>4.5e-16\<close>, which is within
  \<open>1e-6\<close> for every principal up to \<open>10^9\<close>.
\<close>

theorem present_value_inverts_compound_interest:
  assumes "\<not> flt r (Fin 0)" and "\<not> num_lt0 y" and "0 < n" and "0 \<le> x"
    and "compound_interest (Fin x) r y n = Inr (Fin fv)"
  shows "\<exists>b. present_value (Fin fv) r y n = Inr (Fin b)
             \<and> \<bar>b - x\<bar> \<le> pow2 (- 51) * x + pow2 (- 1073)
             \<and> (x \<le> 1000000000 \<longrightarrow> close_to (1 / 1000000) (present_value (Fin fv) r y n) x)"
proof -
  from present_value_round_trip[OF assms] obtain b
    where b: "present_value (Fin fv) r y n = Inr (Fin b)"
      and e: "\<bar>b - x\<bar> \<le> pow2 (- 51) * x + pow2 (- 1073)" by blast
  have "x \<le> 1000000000 \<longrightarrow> \<bar>b - x\<bar> \<le> 1 / 1000000"
    using e billion_tolerance[OF assms(4)] by auto
  thus ?thesis using b e by simp
qed

theorem present_value_inverts_compound_interest_witness:
  "\<not> flt (Fin (1 / 2)) (Fin 0) \<and> \<not> num_lt0 (PyInt 2) \<and> (0::int) < 1 \<and> (0::real) \<le> 1000000
   \<and> compound_interest (Fin 1000000) (Fin (1 / 2)) (PyInt 2) 1 = Inr (Fin 2250000)
   \<and> (\<exists>b. present_value (Fin 2250000) (Fin (1 / 2)) (PyInt 2) 1 = Inr (Fin b)
          \<and> \<bar>b - 1000000\<bar> \<le> pow2 (- 51) * 1000000 + pow2 (- 1073)
          \<and> close_to (1 / 1000000) (present_value (Fin 2250000) (Fin (1 / 2)) (PyInt 2) 1)
                1000000)"
  using present_value_inverts_compound_interest[OF _ _ _ _ compound_interest_million]
    compound_interest_million
  by simp

end
